theory Spec2Isabelle
  imports Main "HOL-Library.Sublist" "HOL-Library.Word"
begin

unbundle bit_operations_syntax

section \<open>JavaScript string primitives used by the reviewer\<close>

text \<open>
  Strings are lists of characters, and a character stands for one UTF-16 code unit
  below 256. The texts of this theory are thus the JavaScript strings whose code units
  all lie in that range (ASCII and the Latin-1 block); on them the length, \<open>slice\<close>,
  \<open>charCodeAt\<close>, \<open>toLowerCase\<close> and \<open>trim\<close> count and read the same units as the code.
  Text with a code unit from 256 on has no counterpart here, and no statement below is
  about such text. \<open>str_includes\<close> (the method \<open>includes\<close>), \<open>startsWith\<close> and \<open>endsWith\<close>
  are the methods of the same names of a JavaScript string, with the receiver first.
\<close>

definition str_includes :: "string \<Rightarrow> string \<Rightarrow> bool" where
  "str_includes s p = sublist p s"

definition startsWith :: "string \<Rightarrow> string \<Rightarrow> bool" where
  "startsWith s p = prefix p s"

definition endsWith :: "string \<Rightarrow> string \<Rightarrow> bool" where
  "endsWith s p = suffix p s"

text \<open>
  \<open>s.split("\n")\<close>: the pieces between line feeds; never empty, the empty string gives
  one empty piece. \<open>xs.join("\n")\<close> is its inverse.
\<close>

fun split_nl :: "string \<Rightarrow> string list" where
  "split_nl [] = [[]]"
| "split_nl (c # cs) =
     (if c = CHR 0x0A then [] # split_nl cs
      else (case split_nl cs of [] \<Rightarrow> [[c]] | l # ls \<Rightarrow> (c # l) # ls))"

fun join_nl :: "string list \<Rightarrow> string" where
  "join_nl [] = []"
| "join_nl [l] = l"
| "join_nl (l # m # ls) = l @ [CHR 0x0A] @ join_nl (m # ls)"

text \<open>
  \<open>toLowerCase\<close> on the code units below 256: the ASCII capitals and the capitals of
  the Latin-1 block move up by 32, every other character stays.
\<close>

definition lower_char :: "char \<Rightarrow> char" where
  "lower_char c =
     (let n = (of_char c :: nat)
      in if (65 \<le> n \<and> n \<le> 90) \<or> (192 \<le> n \<and> n \<le> 222 \<and> n \<noteq> 215)
         then char_of (n + 32) else c)"

definition toLowerCase :: "string \<Rightarrow> string" where
  "toLowerCase s = map lower_char s"

text \<open>
  \<open>trim\<close> removes white space and line terminators at both ends: tab, line feed,
  vertical tab, form feed, carriage return, space and the no-break space.
\<close>

definition is_js_space :: "char \<Rightarrow> bool" where
  "is_js_space c = ((of_char c :: nat) \<in> {9, 10, 11, 12, 13, 32, 160})"

definition trim :: "string \<Rightarrow> string" where
  "trim s = rev (dropWhile is_js_space (rev (dropWhile is_js_space s)))"

text \<open>
  \<open>s.indexOf(p, from)\<close> for \<open>0 \<le> from\<close>: the first position at or after \<open>from\<close> where
  \<open>p\<close> starts, or \<open>-1\<close>. \<open>index_from\<close> walks the text from position \<open>i\<close>.
\<close>

fun index_from :: "string \<Rightarrow> string \<Rightarrow> nat \<Rightarrow> int" where
  "index_from [] p i = (if p = [] then int i else -1)"
| "index_from (c # cs) p i = (if prefix p (c # cs) then int i else index_from cs p (Suc i))"

definition indexOf :: "string \<Rightarrow> string \<Rightarrow> nat \<Rightarrow> int" where
  "indexOf s p from = (if from \<le> length s then index_from (drop from s) p from else
                        (if p = [] then int (length s) else -1))"

text \<open>
  \<open>xs.slice(start, end)\<close> on arrays and strings: a negative index counts from the end,
  an index beyond either end is clamped, a missing \<open>end\<close> is the length.
\<close>

definition slice_index :: "nat \<Rightarrow> int \<Rightarrow> nat" where
  "slice_index n i = (if i < 0 then nat (max (int n + i) 0) else min (nat i) n)"

definition js_slice :: "'a list \<Rightarrow> int \<Rightarrow> int option \<Rightarrow> 'a list" where
  "js_slice xs start fin =
     (let n = length xs;
          k = slice_index n start;
          e = (case fin of None \<Rightarrow> n | Some j \<Rightarrow> slice_index n j)
      in take (e - k) (drop k xs))"

text \<open>Whole numbers as JavaScript prints them in a template and with \<open>toString(16)\<close>.\<close>

definition digit_char :: "nat \<Rightarrow> char" where
  "digit_char d = (''0123456789abcdef'' ! d)"

fun show_nat :: "nat \<Rightarrow> string" where
  "show_nat n = (if n < 10 then [digit_char n] else show_nat (n div 10) @ [digit_char (n mod 10)])"

fun show_hex :: "nat \<Rightarrow> string" where
  "show_hex n = (if n < 16 then [digit_char n] else show_hex (n div 16) @ [digit_char (n mod 16)])"

definition show_int :: "int \<Rightarrow> string" where
  "show_int i = (if i < 0 then CHR ''-'' # show_nat (nat (- i)) else show_nat (nat i))"

section \<open>Review comments (comments.ts)\<close>

text \<open>
  A review comment as the host returns it. \<open>line\<close> and \<open>start_line\<close> may be missing
  (or \<open>null\<close>), \<open>in_reply_to_id\<close> is missing on a thread root.
\<close>

record ReviewComment =
  rc_path :: string
  rc_body :: string
  rc_line :: "int option"
  rc_in_reply_to_id :: "int option"
  rc_id :: int
  rc_start_line :: "int option"
  rc_user_login :: string

record ReviewCommentThread =
  t_file :: string
  t_comments :: "ReviewComment list"

definition COMMENT_SIGNATURE :: string where
  "COMMENT_SIGNATURE = CHR 0x0A # ''<!-- presubmit.ai: comment -->''"

definition isOwnComment :: "string \<Rightarrow> bool" where
  "isOwnComment comment = str_includes comment COMMENT_SIGNATURE"

definition isThreadRelevant :: "ReviewCommentThread \<Rightarrow> bool" where
  "isThreadRelevant thread =
     list_ex (\<lambda>c. str_includes (rc_body c) COMMENT_SIGNATURE
                 \<or> str_includes (rc_body c) ''@presubmitai''
                 \<or> str_includes (rc_body c) ''@presubmit'')
       (t_comments thread)"

text \<open>
  \<open>truncateCodeBlocks\<close>: the loop over the lines of the text, with its two variables
  \<open>inFence\<close> and \<open>codeLines\<close>; the result is the list \<open>out\<close> of the lines pushed.
  A line opens or closes a fence when it starts with three backticks.
\<close>

definition TRUNCATED_MARKER :: string where
  "TRUNCATED_MARKER = ''... (truncated; more lines omitted) ...''"

fun truncate_lines :: "int \<Rightarrow> string list \<Rightarrow> bool \<Rightarrow> int \<Rightarrow> string list" where
  "truncate_lines maxLines [] inFence codeLines = []"
| "truncate_lines maxLines (line # rest) inFence codeLines =
     (if startsWith line ''```'' then
        (if \<not> inFence then line # truncate_lines maxLines rest True 0
         else line # truncate_lines maxLines rest False codeLines)
      else if inFence then
        (if codeLines + 1 \<le> maxLines
           then line # truncate_lines maxLines rest inFence (codeLines + 1)
         else if codeLines + 1 = maxLines + 1
           then TRUNCATED_MARKER # truncate_lines maxLines rest inFence (codeLines + 1)
         else truncate_lines maxLines rest inFence (codeLines + 1))
      else line # truncate_lines maxLines rest inFence codeLines)"

definition truncateCodeBlocks :: "string \<Rightarrow> int \<Rightarrow> string" where
  "truncateCodeBlocks text maxLines = join_nl (truncate_lines maxLines (split_nl text) False 0)"

text \<open>
  \<open>buildComment\<close> reads \<open>config.maxCodeblockLines\<close>, which may be missing (the test
  configuration has none); the default is 60.
\<close>

definition buildComment :: "int option \<Rightarrow> string \<Rightarrow> string" where
  "buildComment maxCodeblockLines comment =
     (let maxLines = (case maxCodeblockLines of None \<Rightarrow> 60 | Some n \<Rightarrow> n);
          processed = truncateCodeBlocks comment maxLines
      in processed @ [CHR 0x0A, CHR 0x0A] @ COMMENT_SIGNATURE)"

declare show_nat.simps [simp del]
declare show_hex.simps [simp del]

section \<open>Files, hunks and findings (pull_request.ts)\<close>

record Hunk =
  h_startLine :: int
  h_endLine :: int
  h_diff :: string

record FileDiff =
  fd_filename :: string
  fd_previous_filename :: "string option"
  fd_status :: string
  fd_hunks :: "Hunk list"

text \<open>
  A finding of the analysis backend. Every field but \<open>file\<close>, \<open>content\<close> may be missing
  on what the backend returns; a missing \<open>critical\<close> is falsy and is \<open>False\<close> here.
\<close>

record AIComment =
  ai_file :: string
  ai_start_line :: "int option"
  ai_end_line :: "int option"
  ai_highlighted_code :: "string option"
  ai_header :: "string option"
  ai_content :: string
  ai_label :: "string option"
  ai_critical :: bool

text \<open>Truthiness of an optional number and of an optional string.\<close>

definition truthy_num :: "int option \<Rightarrow> bool" where
  "truthy_num x = (case x of None \<Rightarrow> False | Some n \<Rightarrow> n \<noteq> 0)"

definition or_empty :: "string option \<Rightarrow> string" where
  "or_empty x = (case x of None \<Rightarrow> [] | Some s \<Rightarrow> s)"

subsection \<open>Batching by characters\<close>

text \<open>
  \<open>estimate\<close> is the closure of that name inside \<open>batchFilesByChars\<close>; \<open>batch_loop\<close> is
  its \<open>for\<close> loop with the variables \<open>batches\<close>, \<open>current\<close> and \<open>size\<close> (here \<open>sz\<close>), followed by
  the final push of a non-empty \<open>current\<close>.
\<close>

definition estimate :: "FileDiff \<Rightarrow> int" where
  "estimate f =
     (let hunksSize = foldl (\<lambda>acc h. acc + int (length (h_diff h))) 0 (fd_hunks f)
      in hunksSize + int (length (fd_filename f)) + 200)"

fun batch_loop ::
  "int \<Rightarrow> FileDiff list \<Rightarrow> FileDiff list list \<Rightarrow> FileDiff list \<Rightarrow> int \<Rightarrow> FileDiff list list" where
  "batch_loop maxChars [] batches current sz =
     (if current \<noteq> [] then batches @ [current] else batches)"
| "batch_loop maxChars (f # fs) batches current sz =
     (let s = estimate f
      in if current \<noteq> [] \<and> sz + s > maxChars
         then batch_loop maxChars fs (batches @ [current]) ([] @ [f]) (0 + s)
         else batch_loop maxChars fs batches (current @ [f]) (sz + s))"

definition batchFilesByChars :: "FileDiff list \<Rightarrow> int \<Rightarrow> FileDiff list list" where
  "batchFilesByChars files maxChars = batch_loop maxChars files [] [] 0"

text \<open>The summed estimate of a run of files, for stating what the batches satisfy.\<close>

definition total_estimate :: "FileDiff list \<Rightarrow> int" where
  "total_estimate fs = sum_list (map estimate fs)"

subsection \<open>Review scopes\<close>

definition isFlow :: "string \<Rightarrow> bool" where
  "isFlow n = (str_includes n ''/flows/'' \<and> endsWith n ''.flow-meta.xml'')"

definition isDataModel :: "string \<Rightarrow> bool" where
  "isDataModel n =
     ((str_includes n ''/objects/''
        \<and> (endsWith n ''.object-meta.xml'' \<or> str_includes n ''/fields/''))
      \<or> str_includes n ''/globalvaluesets/'')"

definition in_scope :: "string \<Rightarrow> FileDiff \<Rightarrow> bool" where
  "in_scope s f =
     (let n = toLowerCase (fd_filename f)
      in if s = ''flows'' then isFlow n
         else if s = ''data-model'' then isDataModel n
         else if s = ''apex'' then \<not> isFlow n \<and> \<not> isDataModel n
         else True)"

definition filterFilesByScope :: "FileDiff list \<Rightarrow> string \<Rightarrow> FileDiff list" where
  "filterFilesByScope files scope = filter (in_scope (toLowerCase scope)) files"

subsection \<open>Which findings are worth posting\<close>

text \<open>
  \<open>handlePullRequest\<close> keeps the findings with non-blank content whose file is one of
  the pull request's files.
\<close>

definition postable :: "string list \<Rightarrow> AIComment \<Rightarrow> bool" where
  "postable filenames c = (trim (ai_content c) \<noteq> [] \<and> list_ex (\<lambda>f. f = ai_file c) filenames)"

definition HIGH_VALUE_LABELS :: "string list" where
  "HIGH_VALUE_LABELS = [''security'', ''possible bug'', ''bug'', ''performance'']"

definition RISK_KEYWORDS :: "string list" where
  "RISK_KEYWORDS =
     [''sql'', ''xss'', ''csrf'', ''injection'', ''overflow'', ''sqli'', ''dos'', ''race'', ''leak'']"

text \<open>
  The keyword test is a regular expression: one of the keywords, ignoring case, with a
  word boundary on both sides. A keyword is made of word characters, so the boundary
  before it asks for the start of the text or a non-word character, and the boundary
  after it for the end of the text or a non-word character.
\<close>

definition is_word_char :: "char \<Rightarrow> bool" where
  "is_word_char c =
     (let n = (of_char c :: nat)
      in (48 \<le> n \<and> n \<le> 57) \<or> (65 \<le> n \<and> n \<le> 90) \<or> (97 \<le> n \<and> n \<le> 122) \<or> n = 95)"

definition keyword_at :: "char option \<Rightarrow> string \<Rightarrow> string \<Rightarrow> bool" where
  "keyword_at prev rest kw =
     ((case prev of None \<Rightarrow> True | Some p \<Rightarrow> \<not> is_word_char p)
      \<and> prefix kw (toLowerCase rest)
      \<and> (case drop (length kw) rest of [] \<Rightarrow> True | c # _ \<Rightarrow> \<not> is_word_char c))"

fun keyword_from :: "char option \<Rightarrow> string \<Rightarrow> bool" where
  "keyword_from prev [] = False"
| "keyword_from prev (c # cs) =
     (list_ex (keyword_at prev (c # cs)) RISK_KEYWORDS \<or> keyword_from (Some c) cs)"

definition hasKeywords :: "string \<Rightarrow> bool" where
  "hasKeywords content = keyword_from None content"

definition hasCode :: "string \<Rightarrow> bool" where
  "hasCode content = str_includes content ''```''"

definition isSubstantive :: "AIComment \<Rightarrow> bool" where
  "isSubstantive comment =
     (let content = trim (ai_content comment);
          contentLen = length content;
          longEnough = (contentLen \<ge> 30)
      in longEnough \<or> hasCode content \<or> hasKeywords content
         \<or> (ai_critical comment \<and> contentLen \<ge> 10))"

definition isHighValue :: "AIComment \<Rightarrow> bool" where
  "isHighValue comment =
     (ai_critical comment \<or> toLowerCase (or_empty (ai_label comment)) \<in> set HIGH_VALUE_LABELS)"

definition isTypos :: "AIComment \<Rightarrow> bool" where
  "isTypos comment = (toLowerCase (or_empty (ai_label comment)) = ''typo'')"

text \<open>
  The body of the loop over the findings in \<open>submitReview\<close>: \<open>True\<close> when the finding
  is pushed to \<open>lineComments\<close>, \<open>False\<close> when it is pushed to \<open>skippedComments\<close>.
\<close>

definition keep_inline :: "AIComment \<Rightarrow> bool" where
  "keep_inline comment =
     (if \<not> truthy_num (ai_end_line comment) then False
      else if isHighValue comment \<or> isTypos comment then
        (let minLen = (if isTypos comment then 10 else 0 :: nat)
         in if isSubstantive comment \<or> length (trim (ai_content comment)) \<ge> minLen
            then True else False)
      else False)"

fun classify_comments ::
  "AIComment list \<Rightarrow> AIComment list \<Rightarrow> AIComment list \<Rightarrow> AIComment list \<times> AIComment list" where
  "classify_comments [] lineComments skippedComments = (lineComments, skippedComments)"
| "classify_comments (comment # rest) lineComments skippedComments =
     (if keep_inline comment
      then classify_comments rest (lineComments @ [comment]) skippedComments
      else classify_comments rest lineComments (skippedComments @ [comment]))"

subsection \<open>The configured caps (config.ts)\<close>

text \<open>
  \<open>parseInt(input, radix)\<close>, the radix a whole number and 0 for a missing one: leading
  white space is skipped, then an optional sign; with the radix 16 or 0 a leading \<open>0x\<close>
  is skipped and the radix is 16, the radix 0 is 10 otherwise; then the longest run of
  digits of the radix is read, letters counting from 10 in either case. A radix other
  than 0 below 2 or above 36, or no digit to read, gives \<open>NaN\<close>, here \<open>None\<close>. The value
  is the exact integer, as the double is up to \<open>2^53\<close>.
\<close>

definition digit_value :: "char \<Rightarrow> nat option" where
  "digit_value c =
     (let n = (of_char c :: nat)
      in if 48 \<le> n \<and> n \<le> 57 then Some (n - 48)
         else if 97 \<le> n \<and> n \<le> 122 then Some (n - 87)
         else if 65 \<le> n \<and> n \<le> 90 then Some (n - 55)
         else None)"

definition radix_digit :: "nat \<Rightarrow> char \<Rightarrow> bool" where
  "radix_digit radix c = (case digit_value c of None \<Rightarrow> False | Some d \<Rightarrow> d < radix)"

definition radix_value :: "nat \<Rightarrow> string \<Rightarrow> nat" where
  "radix_value radix Z =
     foldl (\<lambda>acc c. acc * radix + (case digit_value c of None \<Rightarrow> 0 | Some d \<Rightarrow> d)) 0 Z"

definition parseInt :: "string \<Rightarrow> nat \<Rightarrow> int option" where
  "parseInt input radix =
     (let S = dropWhile is_js_space input;
          sign = (if S \<noteq> [] \<and> hd S = CHR ''-'' then - 1 else 1 :: int);
          S1 = (if S \<noteq> [] \<and> (hd S = CHR ''+'' \<or> hd S = CHR ''-'') then tl S else S);
          hex = ((radix = 0 \<or> radix = 16) \<and> (prefix ''0x'' S1 \<or> prefix ''0X'' S1));
          R = (if hex then 16 else if radix = 0 then 10 else radix);
          S2 = (if hex then drop 2 S1 else S1);
          Z = takeWhile (radix_digit R) S2
      in if radix \<noteq> 0 \<and> (radix < 2 \<or> 36 < radix) then None
         else if Z = [] then None
         else Some (sign * int (radix_value R Z)))"

text \<open>
  The constructor of \<open>Config\<close> reads the caps from the environment or the action's
  input; \<open>maxCommentsEnv\<close> is \<open>process.env.REVIEW_MAX_COMMENTS || getInput('max_comments')\<close>,
  the empty string when neither is set, and likewise \<open>maxCodeblockLinesEnv\<close>. The cap on
  comments is parsed with radix 20, the cap on code block lines with radix 10; a
  value that is not a finite number above 0 gives the default.
\<close>

definition Config_maxComments :: "string \<Rightarrow> int" where
  "Config_maxComments maxCommentsEnv =
     (let parsedMax = (if maxCommentsEnv = [] then None else parseInt maxCommentsEnv 20)
      in case parsedMax of
           Some n \<Rightarrow> if n > 0 then n else 40
         | None \<Rightarrow> 40)"

definition Config_maxCodeblockLines :: "string \<Rightarrow> int" where
  "Config_maxCodeblockLines maxCodeblockLinesEnv =
     (let parsedMaxCode =
            (if maxCodeblockLinesEnv = [] then None else parseInt maxCodeblockLinesEnv 10)
      in case parsedMaxCode of
           Some n \<Rightarrow> if n > 0 then n else 60
         | None \<Rightarrow> 60)"

subsection \<open>The cap on inline comments\<close>

text \<open>
  \<open>config.maxComments\<close> may be missing (the test configuration has none); the default
  is 40. Above the cap the overflow is appended to the skipped findings.
\<close>

definition apply_cap ::
  "int option \<Rightarrow> AIComment list \<times> AIComment list \<Rightarrow> AIComment list \<times> AIComment list" where
  "apply_cap maxComments p =
     (let MAX_TOTAL_COMMENTS = (case maxComments of None \<Rightarrow> 40 | Some n \<Rightarrow> n);
          lineComments = fst p;
          skippedComments = snd p
      in if int (length lineComments) > MAX_TOTAL_COMMENTS
         then (js_slice lineComments 0 (Some MAX_TOTAL_COMMENTS),
               skippedComments @ js_slice lineComments MAX_TOTAL_COMMENTS None)
         else (lineComments, skippedComments))"

definition select_line_comments ::
  "int option \<Rightarrow> AIComment list \<Rightarrow> AIComment list \<times> AIComment list" where
  "select_line_comments maxComments comments =
     apply_cap maxComments (classify_comments comments [] [])"

subsection \<open>Upsert signatures\<close>

text \<open>
  \<open>hashString\<close>: \<open>h = (h * 33) ^ code\<close> from 5381, then \<open>(h >>> 0).toString(16)\<close>. The
  exclusive or turns its operands into 32-bit integers, the product of a 32-bit integer
  and 33 is exact in a double, so \<open>h\<close> is a 32-bit word throughout and \<open>>>> 0\<close> reads it
  unsigned. \<open>code\<close> is \<open>charCodeAt(i)\<close>, the code unit, which \<open>of_char\<close> reads; the key is
  cut with \<open>slice(0, 80)\<close>, which counts code units as \<open>js_slice\<close> counts characters.
\<close>

definition hashString :: "string \<Rightarrow> string" where
  "hashString input =
     show_hex (unat (foldl (\<lambda>h c. (h * 33) XOR of_nat (of_char c)) (5381 :: 32 word) input))"

datatype upsert_kind = FileNote | Fallback

fun kind_text :: "upsert_kind \<Rightarrow> string" where
  "kind_text FileNote = ''file-note''"
| "kind_text Fallback = ''fallback''"

definition first_line :: "string \<Rightarrow> string" where
  "first_line s = (case split_nl s of [] \<Rightarrow> [] | l # _ \<Rightarrow> l)"

definition makeStableKey ::
  "upsert_kind \<Rightarrow> string \<Rightarrow> int option \<Rightarrow> string option \<Rightarrow> string option \<Rightarrow> string" where
  "makeStableKey kind file line header content =
     (let firstLine = toLowerCase (trim (first_line (or_empty content)))
      in kind_text kind @ ''|'' @ file @ ''|''
         @ show_int (case line of None \<Rightarrow> 0 | Some n \<Rightarrow> n) @ ''|''
         @ js_slice (if or_empty header \<noteq> [] then or_empty header else firstLine) 0 (Some 80))"

definition makeUpsertSignature ::
  "upsert_kind \<Rightarrow> string \<Rightarrow> int option \<Rightarrow> string option \<Rightarrow> string option \<Rightarrow> string" where
  "makeUpsertSignature kind file line header content =
     (let key = makeStableKey kind file line header content;
          hash = hashString key
      in ''<!-- presubmit.ai: upsert:'' @ hash @ '':'' @ key @ '' -->'')"

text \<open>
  The pull request's top-level comments on the host, in the order the host lists them.
  A body may be missing. The host lists them in pages of \<open>per_page\<close>, numbers new
  comments with an id no earlier comment has, and \<open>updateComment\<close> replaces the body of
  the comment with the given id.
\<close>

record IssueComment =
  ic_id :: int
  ic_body :: "string option"

definition listComments :: "IssueComment list \<Rightarrow> nat \<Rightarrow> nat \<Rightarrow> IssueComment list" where
  "listComments cs per_page page = take per_page (drop (per_page * (page - 1)) cs)"

definition fresh_id :: "IssueComment list \<Rightarrow> int" where
  "fresh_id cs = foldr (\<lambda>c m. max (ic_id c) m) cs 0 + 1"

definition createComment :: "IssueComment list \<Rightarrow> string \<Rightarrow> IssueComment list" where
  "createComment cs body = cs @ [\<lparr>ic_id = fresh_id cs, ic_body = Some body\<rparr>]"

definition updateComment :: "IssueComment list \<Rightarrow> int \<Rightarrow> string \<Rightarrow> IssueComment list" where
  "updateComment cs comment_id body =
     map (\<lambda>c. if ic_id c = comment_id then c\<lparr>ic_body := Some body\<rparr> else c) cs"

definition carries :: "string \<Rightarrow> IssueComment \<Rightarrow> bool" where
  "carries sig c = (case ic_body c of None \<Rightarrow> False | Some b \<Rightarrow> str_includes b sig)"

text \<open>
  The search loop of \<open>upsertIssueCommentBySignature\<close>: page after page of 100 until a
  comment carries the signature or a page comes back short.
\<close>

function find_signed :: "IssueComment list \<Rightarrow> string \<Rightarrow> nat \<Rightarrow> IssueComment option" where
  "find_signed cs sig page =
     (let data = listComments cs 100 page
      in case find (carries sig) data of
           Some match \<Rightarrow> Some match
         | None \<Rightarrow> if length data < 100 then None else find_signed cs sig (page + 1))"
  by pat_completeness auto
termination
  by (relation "measure (\<lambda>(cs, sig, page). length cs + 100 - 100 * page)")
     (auto simp: listComments_def)

declare find_signed.simps [simp del]

definition upsertIssueCommentBySignature ::
  "IssueComment list \<Rightarrow> string \<Rightarrow> string \<Rightarrow> IssueComment list" where
  "upsertIssueCommentBySignature cs sig body =
     (case find_signed cs sig 1 of
        Some existing \<Rightarrow> updateComment cs (ic_id existing) body
      | None \<Rightarrow> createComment cs body)"

text \<open>
  \<open>resolveReviewPath\<close>: a path that is the previous name of one of the files becomes
  that file's current name.
\<close>

definition resolveReviewPath :: "FileDiff list \<Rightarrow> string \<Rightarrow> string" where
  "resolveReviewPath files p =
     (case find (\<lambda>fd. fd_previous_filename fd = Some p) files of
        Some f \<Rightarrow> fd_filename f
      | None \<Rightarrow> p)"

text \<open>
  A file-level finding (no \<open>end_line\<close>) is posted as a top-level comment: its signature
  and the text handed to \<open>buildComment\<close>. \<open>post_file_comment\<close> is the upsert of one such
  finding on a host that answers every call; \<open>post_file_comments\<close> is the loop over the
  file-level findings.
\<close>

definition code_fence :: "string \<Rightarrow> string \<Rightarrow> string" where
  "code_fence lang code =
     [CHR 0x0A, CHR 0x0A] @ ''```'' @ lang @ [CHR 0x0A] @ code @ [CHR 0x0A] @ ''```''"

definition file_note_signature :: "FileDiff list \<Rightarrow> AIComment \<Rightarrow> string" where
  "file_note_signature files c =
     makeUpsertSignature FileNote (resolveReviewPath files (ai_file c)) None (ai_header c)
       (Some (ai_content c))"

definition file_note_body :: "FileDiff list \<Rightarrow> AIComment \<Rightarrow> string" where
  "file_note_body files c =
     (let headerPart = (if or_empty (ai_header c) \<noteq> [] \<and> length (trim (or_empty (ai_header c))) \<noteq> 0
                        then or_empty (ai_header c) @ [CHR 0x0A, CHR 0x0A] else []);
          codeBlock = (if or_empty (ai_highlighted_code c) \<noteq> []
                          \<and> length (trim (or_empty (ai_highlighted_code c))) \<noteq> 0
                       then code_fence [] (or_empty (ai_highlighted_code c)) else []);
          targetFile = resolveReviewPath files (ai_file c);
          sig = file_note_signature files c;
          rawBody = headerPart @ ai_content c @ [CHR 0x0A, CHR 0x0A] @ ''File: '' @ targetFile
                    @ codeBlock
      in sig @ [CHR 0x0A] @ rawBody)"

definition post_file_comment ::
  "int option \<Rightarrow> FileDiff list \<Rightarrow> IssueComment list \<Rightarrow> AIComment \<Rightarrow> IssueComment list" where
  "post_file_comment cfg files cs c =
     upsertIssueCommentBySignature cs (file_note_signature files c)
       (buildComment cfg (file_note_body files c))"

definition post_file_comments ::
  "int option \<Rightarrow> FileDiff list \<Rightarrow> IssueComment list \<Rightarrow> AIComment list \<Rightarrow> IssueComment list" where
  "post_file_comments cfg files cs comments =
     foldl (post_file_comment cfg files) cs
       (filter (\<lambda>c. \<not> truthy_num (ai_end_line c)) comments)"

subsection \<open>Thread continuity\<close>

definition makeKey :: "string \<Rightarrow> int option \<Rightarrow> int option \<Rightarrow> string" where
  "makeKey path endLine startLine =
     path @ ''#'' @ (case endLine of None \<Rightarrow> [] | Some n \<Rightarrow> show_int n)
          @ ''#'' @ (case startLine of None \<Rightarrow> [] | Some n \<Rightarrow> show_int n)"

text \<open>
  \<open>threadsIndex\<close>: the map filled by the loop over the relevant threads, a later thread
  replacing an earlier one under the same key. The key of a thread is made of the file
  of the thread and the \<open>line\<close> and \<open>start_line\<close> of its first comment \<open>top\<close>
  (here \<open>top_c\<close>).
\<close>

definition threadsIndex :: "ReviewCommentThread list \<Rightarrow> (string \<rightharpoonup> ReviewCommentThread)" where
  "threadsIndex prThreads =
     foldl (\<lambda>idx t. case t_comments t of
                       [] \<Rightarrow> idx
                     | top_c # _ \<Rightarrow>
                         idx(makeKey (t_file t) (rc_line top_c) (rc_start_line top_c) \<mapsto> t))
       Map.empty prThreads"

definition findExistingThread ::
  "(string \<rightharpoonup> ReviewCommentThread) \<Rightarrow> string \<Rightarrow> int option \<Rightarrow> int option
     \<Rightarrow> ReviewCommentThread option" where
  "findExistingThread idx path endLine startLine =
     (case endLine of None \<Rightarrow> None | Some n \<Rightarrow> idx (makeKey path endLine startLine))"

definition existing_thread ::
  "ReviewCommentThread list \<Rightarrow> FileDiff list \<Rightarrow> AIComment \<Rightarrow> ReviewCommentThread option" where
  "existing_thread prThreadsAll files c =
     findExistingThread (threadsIndex (filter isThreadRelevant prThreadsAll))
       (resolveReviewPath files (ai_file c)) (ai_end_line c) (ai_start_line c)"

definition anchorComments ::
  "ReviewCommentThread list \<Rightarrow> FileDiff list \<Rightarrow> AIComment list \<Rightarrow> AIComment list" where
  "anchorComments prThreadsAll files lineComments =
     filter (\<lambda>c. existing_thread prThreadsAll files c = None) lineComments"

definition replyCandidates ::
  "ReviewCommentThread list \<Rightarrow> FileDiff list \<Rightarrow> AIComment list \<Rightarrow> AIComment list" where
  "replyCandidates prThreadsAll files lineComments =
     filter (\<lambda>c. existing_thread prThreadsAll files c \<noteq> None) lineComments"

section \<open>The stored run state (handlePullRequest)\<close>

text \<open>
  The values \<open>JSON.parse\<close> returns, and the errors the \<open>try\<close> block can raise.
  \<open>JSON.parse\<close> itself is the platform's: it is a parameter \<open>parse\<close> of the model, \<open>None\<close>
  when it throws a \<open>SyntaxError\<close>. An object is the list of its properties.
\<close>

datatype json = JNull | JBool bool | JNum int | JStr string | JArr "json list"
  | JObj "(string \<times> json) list"

datatype js_error = SyntaxError | TypeError | HostError

definition PAYLOAD_TAG_OPEN :: string where
  "PAYLOAD_TAG_OPEN = CHR 0x0A # ''<!-- presubmit.ai: payload --''"

definition PAYLOAD_TAG_CLOSE :: string where
  "PAYLOAD_TAG_CLOSE = CHR 0x0A # ''-- presubmit.ai: payload -->''"

text \<open>
  The text handed to \<open>JSON.parse\<close>: \<open>{}\<close> unless both markers are in the body and the
  closing marker is found after the end of the opening marker.
\<close>

definition payloadJson :: "string option \<Rightarrow> string" where
  "payloadJson overview_body =
     (let body = or_empty overview_body;
          hasOpen = str_includes body PAYLOAD_TAG_OPEN;
          hasClose = str_includes body PAYLOAD_TAG_CLOSE
      in if hasOpen \<and> hasClose then
           (let start = indexOf body PAYLOAD_TAG_OPEN 0 + int (length PAYLOAD_TAG_OPEN);
                fin = indexOf body PAYLOAD_TAG_CLOSE (nat start)
            in if fin > start then js_slice body start (Some fin) else ''{}'')
         else ''{}'')"

text \<open>
  \<open>payload.commits\<close>: reading a property of \<open>null\<close> throws a \<open>TypeError\<close>; an object
  gives the property or \<open>undefined\<close> (here \<open>None\<close>); any other value has no such property.
\<close>

fun get_commits :: "json \<Rightarrow> js_error + json option" where
  "get_commits JNull = Inl TypeError"
| "get_commits (JObj props) = Inr (map_of props ''commits'')"
| "get_commits v = Inr None"

text \<open>The body of the \<open>try\<close> block, and the list \<open>commitsReviewed\<close> after the \<open>catch\<close>.\<close>

definition read_commits :: "(string \<Rightarrow> json option) \<Rightarrow> string option \<Rightarrow> js_error + json list" where
  "read_commits parse overview_body =
     (case parse (payloadJson overview_body) of
        None \<Rightarrow> Inl SyntaxError
      | Some payload \<Rightarrow>
          (case get_commits payload of
             Inl e \<Rightarrow> Inl e
           | Inr (Some (JArr commits)) \<Rightarrow> Inr commits
           | Inr _ \<Rightarrow> Inr []))"

definition commitsReviewed :: "(string \<Rightarrow> json option) \<Rightarrow> string option \<Rightarrow> json list" where
  "commitsReviewed parse overview_body =
     (case read_commits parse overview_body of Inl e \<Rightarrow> [] | Inr commits \<Rightarrow> commits)"

definition lastCommitReviewed :: "json list \<Rightarrow> json option" where
  "lastCommitReviewed reviewed = (if length reviewed > 0 then Some (last reviewed) else None)"

fun js_truthy :: "json \<Rightarrow> bool" where
  "js_truthy JNull = False"
| "js_truthy (JBool b) = b"
| "js_truthy (JNum n) = (n \<noteq> 0)"
| "js_truthy (JStr s) = (s \<noteq> [])"
| "js_truthy v = True"

record Commit =
  c_sha :: string
  c_message :: string

text \<open>
  The scope of a run that found an overview comment. \<open>loose_eq\<close> stands for \<open>==\<close>
  between a stored value that is not a string and the head sha; \<open>compareCommits\<close> is
  the host call, which can throw (\<open>Inl\<close>) and whose answer may carry no file list
  (\<open>None\<close>). The result is the files to review, the commits to review and the commits
  reviewed before.
\<close>

definition differs_from :: "(json \<Rightarrow> string \<Rightarrow> bool) \<Rightarrow> json \<Rightarrow> string \<Rightarrow> bool" where
  "differs_from loose_eq v sha = (case v of JStr s \<Rightarrow> s \<noteq> sha | _ \<Rightarrow> \<not> loose_eq v sha)"

definition incremental_scope ::
  "(string \<Rightarrow> json option) \<Rightarrow> (json \<Rightarrow> string \<Rightarrow> bool)
     \<Rightarrow> (json \<Rightarrow> string \<Rightarrow> js_error + string list option)
     \<Rightarrow> string option \<Rightarrow> string \<Rightarrow> FileDiff list \<Rightarrow> Commit list
     \<Rightarrow> js_error + (FileDiff list \<times> Commit list \<times> json list)" where
  "incremental_scope parse loose_eq compareCommits overview_body head_sha filesToReview commits =
     (let reviewed = commitsReviewed parse overview_body;
          incrementalDiff =
            (case lastCommitReviewed reviewed of
               None \<Rightarrow> Inr None
             | Some l \<Rightarrow> if js_truthy l \<and> differs_from loose_eq l head_sha
                          then compareCommits l head_sha else Inr None);
          commitsToReview =
            (if length reviewed \<noteq> 0
             then filter (\<lambda>c. \<not> list_ex (\<lambda>r. r = JStr (c_sha c)) reviewed) commits
             else commits)
      in case incrementalDiff of
           Inl e \<Rightarrow> Inl e
         | Inr None \<Rightarrow> Inr (filesToReview, commitsToReview, reviewed)
         | Inr (Some names) \<Rightarrow>
             Inr (filter (\<lambda>f. list_ex (\<lambda>f2. f2 = fd_filename f) names) filesToReview,
                  commitsToReview, reviewed))"

section \<open>Submitting the anchored comments, and the fallback\<close>

text \<open>An element of \<open>commentsData\<close>: what one new anchored comment sends to the host.\<close>

record ReviewCommentData =
  cd_path :: string
  cd_body :: string
  cd_line :: "int option"
  cd_start_line :: "int option"

definition commentsData ::
  "int option \<Rightarrow> ReviewCommentThread list \<Rightarrow> FileDiff list \<Rightarrow> AIComment list
     \<Rightarrow> ReviewCommentData list" where
  "commentsData cfg prThreadsAll files lineComments =
     map (\<lambda>c. \<lparr>cd_path = resolveReviewPath files (ai_file c),
                cd_body = buildComment cfg (ai_content c),
                cd_line = ai_end_line c,
                cd_start_line =
                  (case (ai_start_line c, ai_end_line c) of
                     (Some s, Some e) \<Rightarrow> if s \<noteq> 0 \<and> s < e then Some s else None
                   | _ \<Rightarrow> None)\<rparr>)
       (anchorComments prThreadsAll files lineComments)"

text \<open>\<open>chunk\<close>: pieces of \<open>size\<close> elements, the whole array as one piece when \<open>size\<close> is 0.\<close>

function chunk :: "'a list \<Rightarrow> nat \<Rightarrow> 'a list list" where
  "chunk arr n =
     (if n = 0 then [arr] else if arr = [] then [] else take n arr # chunk (drop n arr) n)"
  by pat_completeness auto
termination
  by (relation "measure (\<lambda>(arr, n). length arr)") auto

declare chunk.simps [simp del]

text \<open>
  \<open>withRetries\<close>: the call is tried up to \<open>attempts\<close> times; \<open>fn i\<close> is what the \<open>i\<close>-th
  try gives, \<open>Inl\<close> an exception. The first result is returned; when every try throws,
  the last exception is thrown (none when there was no try).
\<close>

fun retry_loop :: "(nat \<Rightarrow> 'e + 'a) \<Rightarrow> nat \<Rightarrow> nat \<Rightarrow> 'e option \<Rightarrow> 'e option + 'a" where
  "retry_loop fn i 0 lastErr = Inl lastErr"
| "retry_loop fn i (Suc k) lastErr =
     (case fn i of Inr v \<Rightarrow> Inr v | Inl e \<Rightarrow> retry_loop fn (Suc i) k (Some e))"

definition withRetries :: "(nat \<Rightarrow> 'e + 'a) \<Rightarrow> nat \<Rightarrow> 'e option + 'a" where
  "withRetries fn attempts = retry_loop fn 0 attempts None"

text \<open>
  \<open>processWithConcurrency\<close>: the workers share the counter \<open>idx\<close>; each index is taken by
  exactly one worker, which stores the outcome of \<open>worker(items[i], i)\<close> in \<open>results[i]\<close>,
  fulfilled or rejected. The array of results does not depend on how the workers
  interleave; it is modelled by its content, the interleaving is not.
\<close>

definition processWithConcurrency ::
  "'a list \<Rightarrow> ('a \<Rightarrow> nat \<Rightarrow> 'e + 'r) \<Rightarrow> nat \<Rightarrow> ('e + 'r) list" where
  "processWithConcurrency items worker concurrency =
     map (\<lambda>(item, i). worker item i) (zip items [0..<length items])"

text \<open>
  What \<open>submitInlineComment\<close> asks of the host: a reply under the root of an existing
  thread, or a new review comment.
\<close>

datatype host_request =
    ReplyForReviewComment int string
  | CreateReviewComment string string "int option"

definition submitInlineComment ::
  "int option \<Rightarrow> (string \<rightharpoonup> ReviewCommentThread) \<Rightarrow> FileDiff list
     \<Rightarrow> string \<Rightarrow> int option \<Rightarrow> string \<Rightarrow> int option \<Rightarrow> host_request" where
  "submitInlineComment cfg idx files file line content startLine =
     (let targetPath = resolveReviewPath files file;
          fresh = CreateReviewComment targetPath (buildComment cfg content) line
      in if (case line of None \<Rightarrow> False | Some l \<Rightarrow> l > 0) then
           (case findExistingThread idx targetPath line startLine of
              Some t \<Rightarrow> (case t_comments t of
                           [] \<Rightarrow> fresh
                         | top_c # _ \<Rightarrow> ReplyForReviewComment (rc_id top_c) (buildComment cfg content))
            | None \<Rightarrow> fresh)
         else fresh)"

text \<open>
  \<open>getUnifiedExcerpt\<close>: the rows of the hunk that holds the line, numbered with the
  new-file line numbers, two rows on each side of the target row.
\<close>

fun number_rows :: "string list \<Rightarrow> int \<Rightarrow> (int option \<times> string) list" where
  "number_rows [] newLine = []"
| "number_rows (r # rows) newLine =
     (if r = [] then number_rows rows newLine
      else if startsWith r ''@@'' then (None, r) # number_rows rows newLine
      else if startsWith r ''-'' then (None, r) # number_rows rows newLine
      else (Some newLine, r) # number_rows rows (newLine + 1))"

fun findIndex :: "('a \<Rightarrow> bool) \<Rightarrow> 'a list \<Rightarrow> int" where
  "findIndex P [] = -1"
| "findIndex P (x # xs) =
     (if P x then 0 else (let i = findIndex P xs in if i = -1 then -1 else i + 1))"

definition find_file :: "FileDiff list \<Rightarrow> string \<Rightarrow> FileDiff option" where
  "find_file files path =
     (case find (\<lambda>f. fd_filename f = path) files of
        Some f \<Rightarrow> Some f
      | None \<Rightarrow> find (\<lambda>f. fd_previous_filename f = Some path) files)"

definition getUnifiedExcerpt :: "FileDiff list \<Rightarrow> string \<Rightarrow> int \<Rightarrow> int \<Rightarrow> string option" where
  "getUnifiedExcerpt files path line contextLines =
     (case find_file files path of
        None \<Rightarrow> None
      | Some fd \<Rightarrow>
          (if length (fd_hunks fd) = 0 then None
           else case find (\<lambda>h. line \<ge> h_startLine h \<and> line \<le> h_endLine h) (fd_hunks fd) of
             None \<Rightarrow> None
           | Some hunk \<Rightarrow>
               (let rows = split_nl (h_diff hunk);
                    numbered = number_rows rows (h_startLine hunk);
                    idx = findIndex (\<lambda>x. fst x = Some line) numbered
                in if idx = -1 then None
                   else
                     (let start = max 0 (idx - contextLines);
                          fin = min (int (length numbered) - 1) (idx + contextLines)
                      in Some (join_nl
                           (map (\<lambda>x. case fst x of Some n \<Rightarrow> show_int n @ '' '' @ snd x
                                                | None \<Rightarrow> snd x)
                              (js_slice numbered start (Some (fin + 1)))))))))"

text \<open>
  The top-level comment for an anchored comment that could not be posted inline. A
  missing line or previous file name prints as \<open>undefined\<close>. The arrow of the rename
  note is the one code unit U+2192 in the code; it lies above 255, so the substitute
  character (26) stands for it here, and the note has the length it has in the code.
  The arrow enters neither the signature nor any statement below.
\<close>

definition RENAME_ARROW :: string where
  "RENAME_ARROW = [CHR 0x1A]"

definition show_line :: "int option \<Rightarrow> string" where
  "show_line l = (case l of None \<Rightarrow> ''undefined'' | Some n \<Rightarrow> show_int n)"

definition context_string :: "string \<Rightarrow> int option \<Rightarrow> string" where
  "context_string path line = ''Context: '' @ path @ '':'' @ show_line line"

definition find_orig :: "AIComment list \<Rightarrow> ReviewCommentData \<Rightarrow> AIComment option" where
  "find_orig lineComments cm =
     find (\<lambda>c. ai_file c = cd_path cm \<and> ai_end_line c = cd_line cm) lineComments"

definition fallback_codeBlock :: "FileDiff list \<Rightarrow> AIComment option \<Rightarrow> string \<Rightarrow> int option \<Rightarrow> string" where
  "fallback_codeBlock files orig targetPathFallback line =
     (let hc = (case orig of None \<Rightarrow> [] | Some c \<Rightarrow> or_empty (ai_highlighted_code c))
      in if hc \<noteq> [] \<and> length (trim hc) \<noteq> 0 then code_fence [] hc
         else (case (case line of None \<Rightarrow> None
                     | Some l \<Rightarrow> getUnifiedExcerpt files targetPathFallback l 2) of
                 None \<Rightarrow> []
               | Some ex \<Rightarrow> if ex \<noteq> [] then code_fence ''diff'' ex else []))"

definition fallback_header :: "AIComment option \<Rightarrow> string option" where
  "fallback_header orig = (case orig of None \<Rightarrow> None | Some c \<Rightarrow> ai_header c)"

definition fallbackBody :: "FileDiff list \<Rightarrow> AIComment list \<Rightarrow> ReviewCommentData \<Rightarrow> string" where
  "fallbackBody files lineComments cm =
     (let orig = find_orig lineComments cm;
          targetPathFallback = resolveReviewPath files (cd_path cm);
          fd = find (\<lambda>f. fd_filename f = targetPathFallback
                         \<or> fd_previous_filename f = Some targetPathFallback) files;
          renameNote =
            (case fd of
               None \<Rightarrow> []
             | Some f \<Rightarrow>
                 if fd_status f = ''renamed''
                 then [CHR 0x0A, CHR 0x0A] @ ''Renamed: ''
                      @ (case fd_previous_filename f of None \<Rightarrow> ''undefined'' | Some p \<Rightarrow> p)
                      @ '' '' @ RENAME_ARROW @ '' '' @ fd_filename f
                 else []);
          codeBlock = fallback_codeBlock files orig targetPathFallback (cd_line cm)
      in cd_body cm @ [CHR 0x0A, CHR 0x0A] @ context_string targetPathFallback (cd_line cm)
         @ renameNote
         @ (if or_empty (fallback_header orig) \<noteq> []
            then [CHR 0x0A, CHR 0x0A] @ or_empty (fallback_header orig) else [])
         @ codeBlock)"

definition fallback_signature :: "FileDiff list \<Rightarrow> AIComment list \<Rightarrow> ReviewCommentData \<Rightarrow> string" where
  "fallback_signature files lineComments cm =
     makeUpsertSignature Fallback (resolveReviewPath files (cd_path cm)) (cd_line cm)
       (fallback_header (find_orig lineComments cm)) (Some (cd_body cm))"

definition fallback_post :: "int option \<Rightarrow> FileDiff list \<Rightarrow> AIComment list \<Rightarrow> ReviewCommentData \<Rightarrow> string" where
  "fallback_post cfg files lineComments cm =
     buildComment cfg (fallback_signature files lineComments cm @ [CHR 0x0A]
                       @ fallbackBody files lineComments cm)"

text \<open>
  The host decides each write: \<open>inline_host r k\<close> is its answer to the \<open>k\<close>-th try of
  the inline request \<open>r\<close>, \<open>issue_host sig\<close> whether the upsert of the top-level comment
  with that signature goes through (it is tried once; a failure is logged). The state
  is the list of top-level comments.
\<close>

definition fallback_results ::
  "(host_request \<Rightarrow> nat \<Rightarrow> js_error + unit) \<Rightarrow> int option \<Rightarrow> (string \<rightharpoonup> ReviewCommentThread)
     \<Rightarrow> FileDiff list \<Rightarrow> ReviewCommentData list \<Rightarrow> (js_error option + unit) list" where
  "fallback_results inline_host cfg idx files batch =
     processWithConcurrency batch
       (\<lambda>cm i. withRetries
                  (inline_host (submitInlineComment cfg idx files (cd_path cm) (cd_line cm)
                                  (cd_body cm) (cd_start_line cm))) 3)
       3"

definition fallback_step ::
  "(string \<Rightarrow> bool) \<Rightarrow> int option \<Rightarrow> FileDiff list \<Rightarrow> AIComment list
     \<Rightarrow> IssueComment list \<Rightarrow> ReviewCommentData \<times> (js_error option + unit) \<Rightarrow> IssueComment list" where
  "fallback_step issue_host cfg files lineComments cs p =
     (case snd p of
        Inr u \<Rightarrow> cs
      | Inl reason \<Rightarrow>
          if issue_host (fallback_signature files lineComments (fst p))
          then upsertIssueCommentBySignature cs (fallback_signature files lineComments (fst p))
                 (fallback_post cfg files lineComments (fst p))
          else cs)"

definition fallback_batch ::
  "(host_request \<Rightarrow> nat \<Rightarrow> js_error + unit) \<Rightarrow> (string \<Rightarrow> bool) \<Rightarrow> int option
     \<Rightarrow> (string \<rightharpoonup> ReviewCommentThread) \<Rightarrow> FileDiff list \<Rightarrow> AIComment list
     \<Rightarrow> IssueComment list \<Rightarrow> ReviewCommentData list \<Rightarrow> IssueComment list" where
  "fallback_batch inline_host issue_host cfg idx files lineComments cs batch =
     foldl (fallback_step issue_host cfg files lineComments) cs
       (zip batch (fallback_results inline_host cfg idx files batch))"

text \<open>
  One batch: \<open>review_host batch\<close> says whether creating and submitting the review with
  these comments goes through; when it throws, the fallback runs. The batches are
  submitted one after the other.
\<close>

definition submit_batch ::
  "(ReviewCommentData list \<Rightarrow> bool) \<Rightarrow> (host_request \<Rightarrow> nat \<Rightarrow> js_error + unit) \<Rightarrow> (string \<Rightarrow> bool)
     \<Rightarrow> int option \<Rightarrow> (string \<rightharpoonup> ReviewCommentThread) \<Rightarrow> FileDiff list \<Rightarrow> AIComment list
     \<Rightarrow> IssueComment list \<Rightarrow> ReviewCommentData list \<Rightarrow> IssueComment list" where
  "submit_batch review_host inline_host issue_host cfg idx files lineComments cs batch =
     (if review_host batch then cs
      else fallback_batch inline_host issue_host cfg idx files lineComments cs batch)"

definition submit_batches ::
  "(ReviewCommentData list \<Rightarrow> bool) \<Rightarrow> (host_request \<Rightarrow> nat \<Rightarrow> js_error + unit) \<Rightarrow> (string \<Rightarrow> bool)
     \<Rightarrow> int option \<Rightarrow> (string \<rightharpoonup> ReviewCommentThread) \<Rightarrow> FileDiff list \<Rightarrow> AIComment list
     \<Rightarrow> IssueComment list \<Rightarrow> ReviewCommentData list \<Rightarrow> IssueComment list" where
  "submit_batches review_host inline_host issue_host cfg idx files lineComments cs data =
     foldl (submit_batch review_host inline_host issue_host cfg idx files lineComments) cs
       (chunk data 50)"

section \<open>Predicates and inputs used in the statements\<close>

text \<open>
  A batch is within the budget when every file after its first was added while the
  files before it plus that file did not exceed \<open>maxChars\<close>.
\<close>

definition within_budget :: "int \<Rightarrow> FileDiff list \<Rightarrow> bool" where
  "within_budget m b =
     (\<forall>p f s. b = p @ f # s \<and> p \<noteq> [] \<longrightarrow> total_estimate p + estimate f \<le> m)"

definition file_named :: "string \<Rightarrow> FileDiff" where
  "file_named n = \<lparr>fd_filename = n, fd_previous_filename = None, fd_status = ''modified'',
                    fd_hunks = [\<lparr>h_startLine = 1, h_endLine = 1, h_diff = ''@@ -1,1 +1,1 @@''\<rparr>]\<rparr>"

definition finding :: "string \<Rightarrow> int \<Rightarrow> string \<Rightarrow> bool \<Rightarrow> string \<Rightarrow> AIComment" where
  "finding file line label critical content =
     \<lparr>ai_file = file, ai_start_line = None, ai_end_line = Some line,
      ai_highlighted_code = None, ai_header = Some ''Note'', ai_content = content,
      ai_label = Some label, ai_critical = critical\<rparr>"

definition overlapping_file :: FileDiff where
  "overlapping_file = file_named ''force-app/main/default/globalValueSets/flows/A.flow-meta.xml''"

definition style_finding :: AIComment where
  "style_finding = finding ''a.ts'' 3 ''style'' False ''This variable name is misleading, please rename it.''"

definition security_finding :: AIComment where
  "security_finding = finding ''a.ts'' 7 ''security'' False ''Unescaped input.''"

text \<open>
  The last component of the stable key: the first 80 characters of the header or,
  without a header, of the first content line, trimmed and in lower case.
\<close>

definition discriminator :: "string option \<Rightarrow> string option \<Rightarrow> string" where
  "discriminator header content =
     take 80 (if or_empty header \<noteq> [] then or_empty header
              else toLowerCase (trim (first_line (or_empty content))))"

definition file_note :: "string \<Rightarrow> string option \<Rightarrow> string \<Rightarrow> AIComment" where
  "file_note file header content =
     \<lparr>ai_file = file, ai_start_line = None, ai_end_line = None, ai_highlighted_code = None,
      ai_header = header, ai_content = content, ai_label = None, ai_critical = False\<rparr>"

definition note_v1 :: AIComment where
  "note_v1 = file_note ''a.ts'' (Some ''H'') ''The first wording.''"

definition note_v2 :: AIComment where
  "note_v2 = file_note ''a.ts'' (Some ''H'') ''A changed wording.''"

definition plain_note_a :: AIComment where
  "plain_note_a = file_note ''a.ts'' None ''Missing tests''"

definition plain_note_b :: AIComment where
  "plain_note_b = file_note ''a.ts'' None ''Missing docs''"

text \<open>
  The id of the comment that \<open>upsertIssueCommentBySignature\<close> writes on the comments
  \<open>cs\<close>: the id of the comment its search finds, or the id the host gives the comment
  it creates.
\<close>

definition upsert_target :: "IssueComment list \<Rightarrow> string \<Rightarrow> int" where
  "upsert_target cs sig =
     (case find_signed cs sig 1 of Some existing \<Rightarrow> ic_id existing | None \<Rightarrow> fresh_id cs)"

text \<open>
  A pull request that renames \<open>old.ts\<close> to \<open>new.ts\<close>, an earlier thread of the reviewer
  whose root is anchored on \<open>old.ts\<close>, and a finding anchored on \<open>new.ts\<close>.
\<close>

definition renamed_file :: FileDiff where
  "renamed_file = \<lparr>fd_filename = ''new.ts'', fd_previous_filename = Some ''old.ts'',
                    fd_status = ''renamed'',
                    fd_hunks = [\<lparr>h_startLine = 1, h_endLine = 9, h_diff = ''@@ -1,8 +1,9 @@''\<rparr>]\<rparr>"

definition thread_on :: "string \<Rightarrow> int \<Rightarrow> int option \<Rightarrow> ReviewCommentThread" where
  "thread_on path endLine startLine =
     \<lparr>t_file = path,
      t_comments = [\<lparr>rc_path = path, rc_body = ''Check this.'' @ [CHR 0x0A, CHR 0x0A] @ COMMENT_SIGNATURE,
                     rc_line = Some endLine, rc_in_reply_to_id = None, rc_id = 11,
                     rc_start_line = startLine, rc_user_login = ''reviewer''\<rparr>]\<rparr>"

definition anchored_finding :: "string \<Rightarrow> int \<Rightarrow> int option \<Rightarrow> AIComment" where
  "anchored_finding file endLine startLine =
     \<lparr>ai_file = file, ai_start_line = startLine, ai_end_line = Some endLine,
      ai_highlighted_code = None, ai_header = Some ''Note'',
      ai_content = ''The check is still missing here.'', ai_label = Some ''bug'',
      ai_critical = True\<rparr>"

text \<open>Whether a parsed payload holds an array under \<open>commits\<close>.\<close>

definition has_commits_array :: "json \<Rightarrow> bool" where
  "has_commits_array v =
     (case v of
        JObj props \<Rightarrow> (case map_of props ''commits'' of Some (JArr xs) \<Rightarrow> True | _ \<Rightarrow> False)
      | _ \<Rightarrow> False)"

text \<open>A \<open>JSON.parse\<close> cut down to the two texts the examples use.\<close>

definition parse_sample :: "string \<Rightarrow> json option" where
  "parse_sample s =
     (if s = ''{}'' then Some (JObj [])
      else if s = ''null'' then Some JNull
      else None)"

definition broken_overview :: string where
  "broken_overview = ''Summary'' @ PAYLOAD_TAG_OPEN @ ''{commits: oops'' @ PAYLOAD_TAG_CLOSE"

definition null_overview :: string where
  "null_overview = ''Summary'' @ PAYLOAD_TAG_OPEN @ ''null'' @ PAYLOAD_TAG_CLOSE"

definition swapped_overview :: string where
  "swapped_overview = ''Summary'' @ PAYLOAD_TAG_CLOSE @ ''{}'' @ PAYLOAD_TAG_OPEN"

text \<open>
  A finding anchored at line 40 of \<open>a.ts\<close>, outside the only hunk of the file and without
  highlighted code; a host that rejects every inline comment and accepts top-level ones.
\<close>

definition far_finding :: AIComment where
  "far_finding = anchored_finding ''a.ts'' 40 None"

definition far_files :: "FileDiff list" where
  "far_files = [file_named ''a.ts'']"


definition rejecting_host :: "host_request \<Rightarrow> nat \<Rightarrow> js_error + unit" where
  "rejecting_host r k = Inl HostError"

definition accepting_issue_host :: "string \<Rightarrow> bool" where
  "accepting_issue_host sig = True"

definition far_cm :: ReviewCommentData where
  "far_cm = \<lparr>cd_path = ''a.ts'', cd_body = buildComment None (ai_content far_finding),
              cd_line = Some 40, cd_start_line = None\<rparr>"

text \<open>
  A second finding anchored at the same line 40 of \<open>a.ts\<close>, with a header and a content
  of its own, and the batch of the two comments.
\<close>

definition twin_finding :: AIComment where
  "twin_finding = far_finding\<lparr>ai_header := Some ''Lock'', ai_content := ''The lock is released twice.''\<rparr>"

definition twin_batch :: "ReviewCommentData list" where
  "twin_batch = commentsData None [] far_files [far_finding, twin_finding]"

definition twin_cm :: ReviewCommentData where
  "twin_cm = \<lparr>cd_path = ''a.ts'', cd_body = buildComment None (ai_content twin_finding),
               cd_line = Some 40, cd_start_line = None\<rparr>"

text \<open>A file-level finding whose header runs over several lines and opens a code fence.\<close>

definition fenced_header_note :: AIComment where
  "fenced_header_note =
     file_note ''a.ts'' (Some (''H'' @ [CHR 0x0A] @ ''```'' @ [CHR 0x0A] @ ''x'' @ [CHR 0x0A] @ ''y''))
       ''C''"

section \<open>Facts about the string primitives\<close>

lemma str_includes_refl: "str_includes s s"
  by (simp add: str_includes_def)

lemma str_includes_append_tail: "str_includes (a @ b @ p) p"
proof -
  have "sublist p ((a @ b) @ p)" by (rule sublist_append_leftI)
  then show ?thesis by (simp add: str_includes_def)
qed

lemma str_includes_append_head: "str_includes (p @ a) p"
  by (simp add: str_includes_def)


section \<open>Every posted comment is recognised as the reviewer's own\<close>

text \<open>
  C10. For every comment text and every configured code-block limit, the body built by
  \<open>buildComment\<close> contains the fixed comment signature, so \<open>isOwnComment\<close> accepts it
  and every thread that holds a comment with such a body is relevant.
\<close>

theorem buildComment_is_own:
  "str_includes (buildComment cfg s) COMMENT_SIGNATURE
   \<and> isOwnComment (buildComment cfg s)
   \<and> (c \<in> set (t_comments t) \<and> rc_body c = buildComment cfg s \<longrightarrow> isThreadRelevant t)"
proof -
  have inc: "str_includes (buildComment cfg s) COMMENT_SIGNATURE"
    unfolding buildComment_def Let_def by (rule str_includes_append_tail)
  have own: "isOwnComment (buildComment cfg s)"
    using inc by (simp add: isOwnComment_def)
  have rel: "isThreadRelevant t" if "c \<in> set (t_comments t)" "rc_body c = buildComment cfg s"
  proof -
    from that inc have "str_includes (rc_body c) COMMENT_SIGNATURE" by simp
    with that(1) show ?thesis
      unfolding isThreadRelevant_def list_ex_iff by blast
  qed
  from inc own rel show ?thesis by blast
qed

theorem buildComment_is_own_witness:
  "isThreadRelevant
     \<lparr>t_file = ''a.ts'',
      t_comments = [\<lparr>rc_path = ''a.ts'', rc_body = buildComment (Some 1) ''x'', rc_line = Some 3,
                     rc_in_reply_to_id = None, rc_id = 7, rc_start_line = None,
                     rc_user_login = ''bot''\<rparr>]\<rparr>"
  using buildComment_is_own
    [of "Some 1" "''x''"
        "\<lparr>rc_path = ''a.ts'', rc_body = buildComment (Some 1) ''x'', rc_line = Some 3,
          rc_in_reply_to_id = None, rc_id = 7, rc_start_line = None, rc_user_login = ''bot''\<rparr>"
        "\<lparr>t_file = ''a.ts'',
          t_comments = [\<lparr>rc_path = ''a.ts'', rc_body = buildComment (Some 1) ''x'', rc_line = Some 3,
                         rc_in_reply_to_id = None, rc_id = 7, rc_start_line = None,
                         rc_user_login = ''bot''\<rparr>]\<rparr>"]
  by simp

section \<open>The cap on inline comments\<close>

lemma js_slice_prefix: "0 \<le> k \<Longrightarrow> js_slice xs 0 (Some k) = take (nat k) xs"
  by (auto simp: js_slice_def slice_index_def Let_def min_def)

lemma js_slice_suffix: "0 \<le> k \<Longrightarrow> js_slice xs k None = drop (nat k) xs"
  by (auto simp: js_slice_def slice_index_def Let_def min_def)

lemma classify_comments_filter:
  "classify_comments cs l s = (l @ filter keep_inline cs, s @ filter (\<lambda>c. \<not> keep_inline c) cs)"
  by (induction cs arbitrary: l s) auto

text \<open>
  The cap in \<open>submitReview\<close>, for the value \<open>cap\<close> that \<open>config.maxComments\<close> holds (40
  when it holds none), not negative. Let \<open>q\<close> be the qualifying line-anchored findings,
  in order. When \<open>q\<close> is longer than \<open>cap\<close>, the inline comments are exactly the first
  \<open>cap\<close> findings of \<open>q\<close>, the skipped findings are the non-qualifying ones followed by
  the overflow of \<open>q\<close>, so inline and overflow together are \<open>q\<close>; with 55 qualifying
  findings and the value 40 there are 40 inline comments and the overflow in the
  skipped list has 15.
\<close>

theorem cap_enforcement:
  assumes "cap = (case maxComments of None \<Rightarrow> 40 | Some n \<Rightarrow> n)"
    and "0 \<le> cap"
    and "q = filter keep_inline comments"
    and "nq = filter (\<lambda>c. \<not> keep_inline c) comments"
    and "cap < int (length q)"
  shows "select_line_comments maxComments comments = (take (nat cap) q, nq @ drop (nat cap) q)
         \<and> fst (select_line_comments maxComments comments)
             @ drop (length nq) (snd (select_line_comments maxComments comments)) = q
         \<and> int (length (fst (select_line_comments maxComments comments))) = cap
         \<and> (length q = 55 \<and> cap = 40 \<longrightarrow>
              length (fst (select_line_comments maxComments comments)) = 40
              \<and> length (snd (select_line_comments maxComments comments)) = length nq + 15)"
proof -
  have sel: "select_line_comments maxComments comments = (take (nat cap) q, nq @ drop (nat cap) q)"
    using assms
    by (simp add: select_line_comments_def classify_comments_filter apply_cap_def Let_def
        js_slice_prefix js_slice_suffix)
  from assms(2,5) have len: "int (length (take (nat cap) q)) = cap" by simp
  show ?thesis
    unfolding sel using len by auto
qed

theorem cap_enforcement_witness:
  "select_line_comments (Some 1) [security_finding, style_finding, security_finding]
     = ([security_finding], [style_finding, security_finding])"
proof -
  have q: "filter keep_inline [security_finding, style_finding, security_finding]
             = [security_finding, security_finding]"
    by code_simp
  have nq: "filter (\<lambda>c. \<not> keep_inline c) [security_finding, style_finding, security_finding]
             = [style_finding]"
    by code_simp
  have "(1::int) = (case Some 1 of None \<Rightarrow> 40 | Some n \<Rightarrow> n)" "(0::int) \<le> 1"
       "(1::int) < int (length [security_finding, security_finding])"
    by simp_all
  from cap_enforcement [OF this(1,2) q [symmetric] nq [symmetric] this(3)]
  show ?thesis by simp
qed

lemma keep_security: "keep_inline security_finding"
  by code_simp

text \<open>
  C5 does not hold on the code. The value of \<open>config.maxComments\<close> is read by the
  constructor of \<open>Config\<close> with \<open>parseInt(maxCommentsEnv, 20)\<close>: the configured text \<open>40\<close> is
  read in base 20 and gives the cap 80, where the cap on code block lines, read with
  radix 10, gives 40 for the same text. With the cap configured as 40 and 55
  qualifying findings the length 55 does not exceed 80: all 55 findings are inline
  and none is skipped, where the claim has 40 inline and 15 skipped. Without a
  configured cap the default 40 applies, and the same findings give 40 inline and 15
  skipped.
\<close>

theorem configured_cap_read_in_base_20:
  "Config_maxComments ''40'' = 80
   \<and> Config_maxCodeblockLines ''40'' = 40
   \<and> select_line_comments (Some (Config_maxComments ''40'')) (replicate 55 security_finding)
       = (replicate 55 security_finding, [])
   \<and> Config_maxComments [] = 40
   \<and> select_line_comments (Some (Config_maxComments [])) (replicate 55 security_finding)
       = (replicate 40 security_finding, replicate 15 security_finding)"
proof -
  have p1: "Config_maxComments ''40'' = 80" by code_simp
  have p2: "Config_maxCodeblockLines ''40'' = 40" by code_simp
  have p3: "Config_maxComments [] = 40" by (simp add: Config_maxComments_def)
  have cl: "classify_comments (replicate 55 security_finding) [] []
      = (replicate 55 security_finding, [])"
    by (simp add: classify_comments_filter keep_security)
  have s1: "select_line_comments (Some 80) (replicate 55 security_finding)
       = (replicate 55 security_finding, [])"
    by (simp add: select_line_comments_def cl apply_cap_def)
  have s2: "select_line_comments (Some 40) (replicate 55 security_finding)
       = (replicate 40 security_finding, replicate 15 security_finding)"
    using js_slice_prefix [of 40 "replicate 55 security_finding"]
      js_slice_suffix [of 40 "replicate 55 security_finding"]
    by (simp add: select_line_comments_def cl apply_cap_def)
  from p1 p2 p3 s1 s2 show ?thesis by simp
qed

section \<open>Batching never splits a file\<close>

lemma estimate_pos: "0 < estimate f"
proof -
  have "0 \<le> foldl (\<lambda>acc h. acc + int (length (h_diff h))) a hs" if "0 \<le> a" for a hs
    using that by (induction hs arbitrary: a) auto
  from this [of 0 "fd_hunks f"]
  have "0 \<le> foldl (\<lambda>acc h. acc + int (length (h_diff h))) 0 (fd_hunks f)" by simp
  then show ?thesis unfolding estimate_def Let_def by linarith
qed

lemma total_estimate_nonneg: "0 \<le> total_estimate fs"
  unfolding total_estimate_def
  by (induction fs) (auto simp: less_imp_le [OF estimate_pos] add_nonneg_nonneg)

lemma batch_loop_batches:
  "batch_loop m fs batches cur sz = batches @ batch_loop m fs [] cur sz"
proof (induction fs arbitrary: batches cur sz)
  case Nil
  show ?case by simp
next
  case (Cons f fs)
  show ?case
  proof (cases "cur \<noteq> [] \<and> sz + estimate f > m")
    case True
    have "batch_loop m (f # fs) batches cur sz = batch_loop m fs (batches @ [cur]) [f] (estimate f)"
      using True by simp
    also have "\<dots> = (batches @ [cur]) @ batch_loop m fs [] [f] (estimate f)"
      by (rule Cons.IH)
    also have "\<dots> = batches @ batch_loop m fs ([] @ [cur]) [f] (estimate f)"
      using Cons.IH [of "[cur]" "[f]" "estimate f"] by simp
    also have "\<dots> = batches @ batch_loop m (f # fs) [] cur sz"
      using True by simp
    finally show ?thesis .
  next
    case False
    then show ?thesis using Cons.IH [of batches "cur @ [f]" "sz + estimate f"] by auto
  qed
qed

lemma batch_loop_flush:
  assumes "cur \<noteq> []" "sz + estimate f > m"
  shows "batch_loop m (f # fs) [] cur sz = cur # batch_loop m fs [] [f] (estimate f)"
  using assms batch_loop_batches [of m fs "[cur]" "[f]" "estimate f"] by simp

lemma batch_loop_keep:
  assumes "\<not> (cur \<noteq> [] \<and> sz + estimate f > m)"
  shows "batch_loop m (f # fs) [] cur sz = batch_loop m fs [] (cur @ [f]) (sz + estimate f)"
  using assms by auto

lemma batch_loop_concat: "concat (batch_loop m fs [] cur sz) = cur @ fs"
proof (induction fs arbitrary: cur sz)
  case Nil
  show ?case by simp
next
  case (Cons f fs)
  show ?case
  proof (cases "cur \<noteq> [] \<and> sz + estimate f > m")
    case True
    then show ?thesis using Cons.IH [of "[f]" "estimate f"] by (simp add: batch_loop_flush del: batch_loop.simps)
  next
    case False
    then show ?thesis
      using Cons.IH [of "cur @ [f]" "sz + estimate f"] batch_loop_keep [OF False, of fs]
      by (simp del: batch_loop.simps)
  qed
qed

lemma batch_loop_nonempty: "b \<in> set (batch_loop m fs [] cur sz) \<Longrightarrow> b \<noteq> []"
proof (induction fs arbitrary: cur sz)
  case Nil
  then show ?case by (auto split: if_splits)
next
  case (Cons f fs)
  show ?case
  proof (cases "cur \<noteq> [] \<and> sz + estimate f > m")
    case True
    with Cons.prems have "b = cur \<or> b \<in> set (batch_loop m fs [] [f] (estimate f))"
      by (simp add: batch_loop_flush del: batch_loop.simps)
    then show ?thesis using True Cons.IH by blast
  next
    case False
    from Cons.prems have "b \<in> set (batch_loop m fs [] (cur @ [f]) (sz + estimate f))"
      by (simp only: batch_loop_keep [OF False])
    then show ?thesis by (rule Cons.IH)
  qed
qed

lemma batch_loop_first:
  "cur \<noteq> [] \<Longrightarrow> \<exists>t rest. batch_loop m fs [] cur sz = (cur @ t) # rest"
proof (induction fs arbitrary: cur sz)
  case Nil
  then show ?case by simp
next
  case (Cons f fs)
  show ?case
  proof (cases "sz + estimate f > m")
    case True
    then show ?thesis using Cons.prems by (simp add: batch_loop_flush del: batch_loop.simps)
  next
    case False
    then have "batch_loop m (f # fs) [] cur sz = batch_loop m fs [] (cur @ [f]) (sz + estimate f)"
      by (intro batch_loop_keep) simp
    moreover obtain t rest
      where "batch_loop m fs [] (cur @ [f]) (sz + estimate f) = ((cur @ [f]) @ t) # rest"
      using Cons.IH [of "cur @ [f]" "sz + estimate f"] by auto
    ultimately show ?thesis by simp
  qed
qed

lemma within_budget_single: "within_budget m [f]"
  by (auto simp: within_budget_def Cons_eq_append_conv append_eq_Cons_conv)

lemma within_budget_snoc:
  assumes "within_budget m cur" "total_estimate cur + estimate f \<le> m"
  shows "within_budget m (cur @ [f])"
  unfolding within_budget_def
proof (intro allI impI)
  fix p g s assume h: "cur @ [f] = p @ g # s \<and> p \<noteq> []"
  show "total_estimate p + estimate g \<le> m"
  proof (cases s rule: rev_cases)
    case Nil
    with h have "p = cur" "g = f" by auto
    with assms show ?thesis by simp
  next
    case (snoc s' x)
    with h have "cur = p @ g # s'" by auto
    with assms(1) h show ?thesis unfolding within_budget_def by blast
  qed
qed

lemma batch_loop_within_budget:
  "cur \<noteq> [] \<Longrightarrow> within_budget m cur \<Longrightarrow> sz = total_estimate cur \<Longrightarrow>
   b \<in> set (batch_loop m fs [] cur sz) \<Longrightarrow> within_budget m b"
proof (induction fs arbitrary: cur sz)
  case Nil
  then show ?case by simp
next
  case (Cons f fs)
  show ?case
  proof (cases "sz + estimate f > m")
    case True
    with Cons.prems have "b = cur \<or> b \<in> set (batch_loop m fs [] [f] (estimate f))"
      by (simp add: batch_loop_flush del: batch_loop.simps)
    then show ?thesis
    proof
      assume "b = cur" then show ?thesis using Cons.prems by simp
    next
      assume "b \<in> set (batch_loop m fs [] [f] (estimate f))"
      then show ?thesis using Cons.IH [of "[f]" "estimate f"] within_budget_single
        by (simp add: total_estimate_def)
    qed
  next
    case False
    then have eq: "batch_loop m (f # fs) [] cur sz = batch_loop m fs [] (cur @ [f]) (sz + estimate f)"
      by (intro batch_loop_keep) simp
    have "within_budget m (cur @ [f])" using within_budget_snoc Cons.prems False by simp
    then show ?thesis
      using Cons.IH [of "cur @ [f]" "sz + estimate f"] Cons.prems eq
      by (simp add: total_estimate_def)
  qed
qed

lemma batch_loop_boundary:
  "cur \<noteq> [] \<Longrightarrow> sz = total_estimate cur \<Longrightarrow>
   batch_loop m fs [] cur sz = pre @ b # c # post \<Longrightarrow>
   c \<noteq> [] \<and> total_estimate b + estimate (hd c) > m"
proof (induction fs arbitrary: cur sz pre)
  case Nil
  then show ?case by (simp add: Cons_eq_append_conv)
next
  case (Cons f fs)
  show ?case
  proof (cases "sz + estimate f > m")
    case True
    then have eq: "batch_loop m (f # fs) [] cur sz = cur # batch_loop m fs [] [f] (estimate f)"
      using Cons.prems by (simp add: batch_loop_flush del: batch_loop.simps)
    obtain t rest where first: "batch_loop m fs [] [f] (estimate f) = ([f] @ t) # rest"
      using batch_loop_first [of "[f]" m fs "estimate f"] by auto
    show ?thesis
    proof (cases pre)
      case Nil
      with eq Cons.prems(3) have "b = cur" "c # post = batch_loop m fs [] [f] (estimate f)" by auto
      with first have "c = f # t" by simp
      with \<open>b = cur\<close> True Cons.prems(2) show ?thesis by simp
    next
      case (Cons x pre')
      with eq Cons.prems(3) have "batch_loop m fs [] [f] (estimate f) = pre' @ b # c # post" by auto
      then show ?thesis using Cons.IH [of "[f]" "estimate f" pre'] by (simp add: total_estimate_def)
    qed
  next
    case False
    then have eq: "batch_loop m (f # fs) [] cur sz = batch_loop m fs [] (cur @ [f]) (sz + estimate f)"
      by (intro batch_loop_keep) simp
    then show ?thesis
      using Cons.IH [of "cur @ [f]" "sz + estimate f" pre] Cons.prems
      by (simp add: total_estimate_def)
  qed
qed

lemma batchFilesByChars_Cons:
  "batchFilesByChars (f # fs) m = batch_loop m fs [] [f] (estimate f)"
  by (simp add: batchFilesByChars_def)

text \<open>
  C6. For every list of files and every \<open>maxChars\<close>: the batches, put end to end in
  order, are the list of files, and no batch is empty, so every file with all its hunks
  is in exactly one batch; between two consecutive batches the first batch plus the
  first file of the next exceeds \<open>maxChars\<close>, and inside a batch every file after the
  first fitted when it was added, so a batch starts exactly where the non-empty
  current batch would overflow; a file whose own estimate exceeds \<open>maxChars\<close> is a
  batch of one file.
\<close>

theorem batchFilesByChars_never_splits:
  "concat (batchFilesByChars files maxChars) = files
   \<and> [] \<notin> set (batchFilesByChars files maxChars)
   \<and> (\<forall>pre b c post. batchFilesByChars files maxChars = pre @ b # c # post
         \<longrightarrow> c \<noteq> [] \<and> total_estimate b + estimate (hd c) > maxChars)
   \<and> (\<forall>b p f s. b \<in> set (batchFilesByChars files maxChars) \<and> b = p @ f # s \<and> p \<noteq> []
         \<longrightarrow> total_estimate p + estimate f \<le> maxChars)
   \<and> (\<forall>f. f \<in> set files \<and> estimate f > maxChars
         \<longrightarrow> [f] \<in> set (batchFilesByChars files maxChars))"
proof -
  let ?bs = "batchFilesByChars files maxChars"
  have cc: "concat ?bs = files"
    by (cases files) (simp_all add: batchFilesByChars_def batch_loop_concat del: batch_loop.simps)
  have ne: "[] \<notin> set ?bs"
  proof (cases files)
    case Nil
    then show ?thesis by (simp add: batchFilesByChars_def)
  next
    case (Cons f fs)
    then show ?thesis using batch_loop_nonempty [of "[]" maxChars fs "[f]" "estimate f"]
      by (auto simp: batchFilesByChars_Cons)
  qed
  have bd: "c \<noteq> [] \<and> total_estimate b + estimate (hd c) > maxChars"
    if "?bs = pre @ b # c # post" for pre b c post
  proof (cases files)
    case Nil
    with that show ?thesis by (simp add: batchFilesByChars_def)
  next
    case (Cons f fs)
    with that have "batch_loop maxChars fs [] [f] (estimate f) = pre @ b # c # post"
      by (simp add: batchFilesByChars_Cons)
    then show ?thesis
      by (rule batch_loop_boundary [rotated 2]) (simp_all add: total_estimate_def)
  qed
  have wb: "within_budget maxChars b" if "b \<in> set ?bs" for b
  proof (cases files)
    case Nil
    with that show ?thesis by (simp add: batchFilesByChars_def)
  next
    case (Cons f fs)
    with that have "b \<in> set (batch_loop maxChars fs [] [f] (estimate f))"
      by (simp add: batchFilesByChars_Cons)
    then show ?thesis
      by (rule batch_loop_within_budget [rotated 3])
         (simp_all add: total_estimate_def within_budget_single)
  qed
  have fit: "total_estimate p + estimate f \<le> maxChars"
    if "b \<in> set ?bs" "b = p @ f # s" "p \<noteq> []" for b p f s
    using wb [OF that(1)] that(2,3) unfolding within_budget_def by blast
  have big: "[f] \<in> set ?bs" if "f \<in> set files" "estimate f > maxChars" for f
  proof -
    from that(1) cc obtain b where b: "b \<in> set ?bs" "f \<in> set b" by (metis set_concat UN_E)
    from b(2) obtain p s where ps: "b = p @ f # s" by (auto simp: in_set_conv_decomp)
    have "p = []"
    proof (rule ccontr)
      assume "p \<noteq> []"
      from fit [OF b(1) ps this] total_estimate_nonneg [of p] that(2) show False by linarith
    qed
    moreover have "s = []"
    proof (cases s)
      case Nil then show ?thesis .
    next
      case (Cons g s')
      with ps \<open>p = []\<close> have "b = [f] @ g # s'" by simp
      from fit [OF b(1) this] have "total_estimate [f] + estimate g \<le> maxChars" by simp
      with estimate_pos [of g] that(2) show ?thesis by (simp add: total_estimate_def)
    qed
    ultimately show ?thesis using b(1) ps by simp
  qed
  from cc ne bd fit big show ?thesis by blast
qed

theorem batchFilesByChars_never_splits_witness:
  "batchFilesByChars [file_named ''a'', file_named ''b'', file_named ''c''] 450
     = [[file_named ''a'', file_named ''b''], [file_named ''c'']]
   \<and> total_estimate [file_named ''a'', file_named ''b''] + estimate (hd [file_named ''c'']) > 450
   \<and> total_estimate [file_named ''a''] + estimate (file_named ''b'') \<le> 450"
proof -
  let ?fs = "[file_named ''a'', file_named ''b'', file_named ''c'']"
  have e: "batchFilesByChars ?fs 450 = [[file_named ''a'', file_named ''b''], [file_named ''c'']]"
    by code_simp
  note t = batchFilesByChars_never_splits [of ?fs 450]
  from t have "\<forall>pre b c post. batchFilesByChars ?fs 450 = pre @ b # c # post
      \<longrightarrow> c \<noteq> [] \<and> total_estimate b + estimate (hd c) > 450" by blast
  from this [rule_format, of "[]" "[file_named ''a'', file_named ''b'']" "[file_named ''c'']" "[]"] e
  have 1: "total_estimate [file_named ''a'', file_named ''b''] + estimate (hd [file_named ''c'']) > 450"
    by simp
  from t have "\<forall>b p f s. b \<in> set (batchFilesByChars ?fs 450) \<and> b = p @ f # s \<and> p \<noteq> []
      \<longrightarrow> total_estimate p + estimate f \<le> 450" by blast
  from this [rule_format, of "[file_named ''a'', file_named ''b'']" "[file_named ''a'']"
      "file_named ''b''" "[]"] e
  have 2: "total_estimate [file_named ''a''] + estimate (file_named ''b'') \<le> 450"
    by simp
  from e 1 2 show ?thesis by blast
qed

section \<open>Review scopes\<close>

lemma lower_apex: "toLowerCase ''apex'' = ''apex''"
  by code_simp

lemma lower_flows: "toLowerCase ''flows'' = ''flows''"
  by code_simp

lemma lower_data_model: "toLowerCase ''data-model'' = ''data-model''"
  by code_simp

text \<open>
  C7, as the code has it. Every file is selected by at least one of the scopes
  \<open>apex\<close>, \<open>flows\<close> and \<open>data-model\<close>, and a file selected by \<open>apex\<close> is selected by
  neither of the other two. (The scopes \<open>flows\<close> and \<open>data-model\<close> are not kept apart.)
\<close>

theorem scopes_cover:
  "set (filterFilesByScope files ''apex'') \<union> set (filterFilesByScope files ''flows'')
     \<union> set (filterFilesByScope files ''data-model'') = set files
   \<and> set (filterFilesByScope files ''apex'')
       \<inter> (set (filterFilesByScope files ''flows'')
           \<union> set (filterFilesByScope files ''data-model'')) = {}"
  unfolding filterFilesByScope_def lower_apex lower_flows lower_data_model
  by (auto simp: in_scope_def Let_def)

text \<open>
  The claim as stated fails: a flow file under a \<open>globalValueSets\<close> directory is
  selected by the scope \<open>flows\<close> and by the scope \<open>data-model\<close>.
\<close>

theorem scopes_overlap:
  "filterFilesByScope [overlapping_file] ''flows'' = [overlapping_file]
   \<and> filterFilesByScope [overlapping_file] ''data-model'' = [overlapping_file]
   \<and> filterFilesByScope [overlapping_file] ''apex'' = []"
  by code_simp

theorem scopes_cover_witness:
  "set (filterFilesByScope [overlapping_file, file_named ''src/a.cls''] ''apex'')
     = {file_named ''src/a.cls''}
   \<and> set (filterFilesByScope [overlapping_file, file_named ''src/a.cls''] ''flows'')
       \<union> set (filterFilesByScope [overlapping_file, file_named ''src/a.cls''] ''data-model'')
     = {overlapping_file}"
proof -
  have a: "filterFilesByScope [overlapping_file, file_named ''src/a.cls''] ''apex''
             = [file_named ''src/a.cls'']"
    by code_simp
  have d: "overlapping_file \<noteq> file_named ''src/a.cls''"
    by code_simp
  from scopes_cover [of "[overlapping_file, file_named ''src/a.cls'']"] a d
  show ?thesis by auto
qed

section \<open>Which findings are posted inline\<close>

lemma substantive_or_ten:
  "(isSubstantive c \<or> length (trim (ai_content c)) \<ge> 10)
     = (length (trim (ai_content c)) \<ge> 10 \<or> hasCode (trim (ai_content c))
          \<or> hasKeywords (trim (ai_content c)))"
  by (auto simp: isSubstantive_def Let_def)

text \<open>
  C4, as the code has it. A finding is kept for inline posting exactly when its
  \<open>end_line\<close> is set and not zero, it is critical or carries a high-value label
  (security, possible bug, bug, performance) or the label typo, and, when its label
  is typo, its trimmed content has at least 10 characters or holds a code fence or a
  risk keyword. A finding with a high-value label is therefore always kept, and a
  finding that is neither critical nor so labelled is skipped whatever its content.
  Every finding goes to exactly one of the two lists, in order: none is discarded.
\<close>

theorem keep_inline_rule:
  "(keep_inline c \<longleftrightarrow>
      truthy_num (ai_end_line c) \<and> (isHighValue c \<or> isTypos c)
      \<and> (isTypos c \<longrightarrow> length (trim (ai_content c)) \<ge> 10 \<or> hasCode (trim (ai_content c))
                        \<or> hasKeywords (trim (ai_content c))))
   \<and> (truthy_num (ai_end_line c)
        \<and> toLowerCase (or_empty (ai_label c)) \<in> set HIGH_VALUE_LABELS \<longrightarrow> keep_inline c)
   \<and> (\<not> isHighValue c \<and> \<not> isTypos c \<longrightarrow> \<not> keep_inline c)
   \<and> classify_comments cs [] [] = (filter keep_inline cs, filter (\<lambda>c. \<not> keep_inline c) cs)"
proof -
  have 1: "keep_inline c \<longleftrightarrow>
      truthy_num (ai_end_line c) \<and> (isHighValue c \<or> isTypos c)
      \<and> (isTypos c \<longrightarrow> length (trim (ai_content c)) \<ge> 10 \<or> hasCode (trim (ai_content c))
                        \<or> hasKeywords (trim (ai_content c)))"
    using substantive_or_ten [of c] by (auto simp: keep_inline_def Let_def)
  have 2: "\<not> isTypos c" if "toLowerCase (or_empty (ai_label c)) \<in> set HIGH_VALUE_LABELS"
    using that by (auto simp: HIGH_VALUE_LABELS_def isTypos_def)
  have 3: "keep_inline c"
    if "truthy_num (ai_end_line c)" "toLowerCase (or_empty (ai_label c)) \<in> set HIGH_VALUE_LABELS"
    using that 2 by (simp add: 1 isHighValue_def)
  have 4: "\<not> keep_inline c" if "\<not> isHighValue c" "\<not> isTypos c"
    using that by (simp add: 1)
  have 5: "classify_comments cs [] [] = (filter keep_inline cs, filter (\<lambda>c. \<not> keep_inline c) cs)"
    by (simp add: classify_comments_filter)
  from 1 3 4 5 show ?thesis by blast
qed

text \<open>
  The claim as stated fails: a finding on a file of the pull request, with content,
  anchored at line 3 and well above the substance bar of 30 characters, is skipped
  because its label is neither high-value nor typo.
\<close>

theorem substantive_finding_skipped:
  "postable [''a.ts''] style_finding \<and> truthy_num (ai_end_line style_finding)
   \<and> \<not> ai_critical style_finding \<and> isSubstantive style_finding
   \<and> classify_comments [style_finding] [] [] = ([], [style_finding])"
  by code_simp

theorem keep_inline_rule_witness:
  "keep_inline security_finding \<and> \<not> keep_inline style_finding
   \<and> classify_comments [security_finding, style_finding] [] []
       = ([security_finding], [style_finding])"
proof -
  have s: "truthy_num (ai_end_line security_finding)"
          "toLowerCase (or_empty (ai_label security_finding)) \<in> set HIGH_VALUE_LABELS"
    by code_simp+
  have n: "\<not> isHighValue style_finding" "\<not> isTypos style_finding"
    by code_simp+
  from keep_inline_rule [of security_finding "[security_finding, style_finding]"] s
  have 1: "keep_inline security_finding"
    and 3: "classify_comments [security_finding, style_finding] [] []
       = (filter keep_inline [security_finding, style_finding],
          filter (\<lambda>c. \<not> keep_inline c) [security_finding, style_finding])"
    by blast+
  from keep_inline_rule [of style_finding "[]"] n have 2: "\<not> keep_inline style_finding" by blast
  from 1 2 3 show ?thesis by simp
qed

section \<open>Upserting a signed comment\<close>

lemma find_append_case:
  "find P (xs @ ys) = (case find P xs of None \<Rightarrow> find P ys | Some x \<Rightarrow> Some x)"
  by (induction xs) auto

lemma find_signed_drop:
  "0 < page \<Longrightarrow> find_signed cs sig page = find (carries sig) (drop (100 * (page - 1)) cs)"
proof (induction cs sig page rule: find_signed.induct)
  case (1 cs sig page)
  let ?rest = "drop (100 * (page - 1)) cs"
  let ?data = "take 100 ?rest"
  have split: "find (carries sig) ?rest
      = (case find (carries sig) ?data of None \<Rightarrow> find (carries sig) (drop 100 ?rest) | Some x \<Rightarrow> Some x)"
    using find_append_case [of "carries sig" ?data "drop 100 ?rest"]
    by (simp only: append_take_drop_id)
  show ?case
  proof (cases "find (carries sig) ?data")
    case (Some m)
    then show ?thesis using split by (simp add: find_signed.simps [of cs sig page] listComments_def)
  next
    case None
    show ?thesis
    proof (cases "length ?data < 100")
      case True
      then have "drop 100 ?rest = []" by auto
      with None split have "find (carries sig) ?rest = None" by simp
      moreover have "find_signed cs sig page = None"
        using None True by (subst find_signed.simps) (simp only: listComments_def Let_def, simp)
      ultimately show ?thesis by simp
    next
      case False
      have ld: "listComments cs 100 page = ?data" by (simp add: listComments_def)
      have step: "find_signed cs sig page = find_signed cs sig (page + 1)"
        by (subst find_signed.simps) (simp only: ld Let_def None False option.case if_False)
      have "find_signed cs sig (page + 1) = find (carries sig) (drop (100 * (page + 1 - 1)) cs)"
        by (rule "1.IH" [OF refl]) (use None False ld in simp_all)
      moreover have "drop (100 * (page + 1 - 1)) cs = drop 100 ?rest"
        using "1.prems" by (simp add: algebra_simps)
      moreover have "find (carries sig) ?rest = find (carries sig) (drop 100 ?rest)"
        using split None by simp
      ultimately show ?thesis using step by simp
    qed
  qed
qed

lemma find_signed_find: "find_signed cs sig (Suc 0) = find (carries sig) cs"
  using find_signed_drop [of "Suc 0" cs sig] by simp

lemma ic_id_less_fresh: "c \<in> set cs \<Longrightarrow> ic_id c < fresh_id cs"
  unfolding fresh_id_def by (induction cs) auto

lemma upsert_idempotent:
  assumes "str_includes body sig"
  shows "upsertIssueCommentBySignature (upsertIssueCommentBySignature cs sig body) sig body
           = upsertIssueCommentBySignature cs sig body"
proof (cases "find (carries sig) cs")
  case None
  let ?n = "\<lparr>ic_id = fresh_id cs, ic_body = Some body\<rparr>"
  have first: "upsertIssueCommentBySignature cs sig body = cs @ [?n]"
    using None by (simp add: upsertIssueCommentBySignature_def find_signed_find createComment_def)
  have "carries sig ?n" using assms by (simp add: carries_def)
  then have "find (carries sig) (cs @ [?n]) = Some ?n"
    using None by (simp add: find_append_case)
  then have "upsertIssueCommentBySignature (cs @ [?n]) sig body
      = updateComment (cs @ [?n]) (fresh_id cs) body"
    by (simp add: upsertIssueCommentBySignature_def find_signed_find)
  also have "\<dots> = cs @ [?n]"
  proof -
    have "map (\<lambda>c. if ic_id c = fresh_id cs then c\<lparr>ic_body := Some body\<rparr> else c) cs = cs"
      by (rule map_idI) (use ic_id_less_fresh [of _ cs] in force)
    then show ?thesis by (simp add: updateComment_def)
  qed
  finally show ?thesis using first by simp
next
  case (Some e)
  define upd :: "IssueComment \<Rightarrow> IssueComment"
    where "upd = (\<lambda>c. if ic_id c = ic_id e then c\<lparr>ic_body := Some body\<rparr> else c)"
  have upd_id: "ic_id (upd c) = ic_id c" for c by (simp add: upd_def)
  have upd_car: "carries sig (upd c)" if "ic_id c = ic_id e" for c
    using that assms by (simp add: upd_def carries_def)
  have upd_other: "upd c = c" if "ic_id c \<noteq> ic_id e" for c
    using that by (simp add: upd_def)
  have upd_idem: "upd (upd c) = upd c" for c by (simp add: upd_def)
  have first: "upsertIssueCommentBySignature cs sig body = map upd cs"
    using Some
    by (simp add: upsertIssueCommentBySignature_def find_signed_find updateComment_def upd_def)
  from Some obtain i where i: "i < length cs" "carries sig (cs ! i)" "e = cs ! i"
      "\<forall>j<i. \<not> carries sig (cs ! j)"
    unfolding find_Some_iff by blast
  have ci: "carries sig (map upd cs ! i)"
    using i(1,3) upd_car [of "cs ! i"] by simp
  have "map upd cs ! i \<in> set (map upd cs)"
    using i(1) by (metis length_map nth_mem)
  with ci have "find (carries sig) (map upd cs) \<noteq> None"
    unfolding find_None_iff by blast
  then obtain x where x: "find (carries sig) (map upd cs) = Some x" by blast
  then obtain k where k: "k < length (map upd cs)" "carries sig (map upd cs ! k)"
      "x = map upd cs ! k" "\<forall>j<k. \<not> carries sig (map upd cs ! j)"
    unfolding find_Some_iff by blast
  from k(1) have kl: "k < length cs" by simp
  have xk: "x = upd (cs ! k)" using k(3) kl by simp
  have kid: "ic_id x = ic_id e"
  proof (rule ccontr)
    assume ne: "ic_id x \<noteq> ic_id e"
    with xk have nk: "ic_id (cs ! k) \<noteq> ic_id e" by (simp add: upd_id)
    then have "upd (cs ! k) = cs ! k" by (rule upd_other)
    with k(2) kl have "carries sig (cs ! k)" by simp
    with i(4) have "\<not> k < i" by blast
    moreover have "\<not> i < k" using k(4) ci by blast
    ultimately have "k = i" by simp
    with i(3) nk show False by simp
  qed
  have "upsertIssueCommentBySignature (map upd cs) sig body
      = map (\<lambda>c. if ic_id c = ic_id e then c\<lparr>ic_body := Some body\<rparr> else c) (map upd cs)"
    using x kid by (simp add: upsertIssueCommentBySignature_def find_signed_find updateComment_def)
  also have "\<dots> = map upd (map upd cs)" by (simp only: upd_def)
  also have "\<dots> = map upd cs" by (simp add: upd_idem)
  finally show ?thesis using first by simp
qed

section \<open>The signature survives \<open>buildComment\<close>\<close>

lemma split_nl_nonempty: "split_nl s \<noteq> []"
  by (induction s) (auto split: list.splits)

lemma split_nl_first:
  "CHR 0x0A \<notin> set s \<Longrightarrow> split_nl (s @ CHR 0x0A # r) = s # split_nl r"
  by (induction s) (auto split: list.splits)

lemma split_nl_lines: "l \<in> set (split_nl s) \<Longrightarrow> CHR 0x0A \<notin> set l"
proof (induction s arbitrary: l)
  case Nil
  then show ?case by simp
next
  case (Cons c cs)
  then show ?case
    by (cases "split_nl cs") (auto split: if_splits)
qed

lemma first_line_no_nl: "CHR 0x0A \<notin> set (first_line s)"
  using split_nl_lines [of "first_line s" s] split_nl_nonempty [of s]
  by (cases "split_nl s") (auto simp: first_line_def)

lemma set_trim: "set (trim s) \<subseteq> set s"
proof -
  have "set (dropWhile is_js_space (rev (dropWhile is_js_space s))) \<subseteq> set (rev (dropWhile is_js_space s))"
    by (rule set_dropWhileD [THEN subsetI])
  also have "\<dots> \<subseteq> set s" using set_dropWhileD [of _ is_js_space s] by auto
  finally show ?thesis by (simp add: trim_def)
qed

lemma lower_char_nl: "lower_char c = CHR 0x0A \<Longrightarrow> c = CHR 0x0A"
proof -
  assume a: "lower_char c = CHR 0x0A"
  define n where "n = (of_char c :: nat)"
  show ?thesis
  proof (rule ccontr)
    assume "c \<noteq> CHR 0x0A"
    with a have r: "(65 \<le> n \<and> n \<le> 90) \<or> (192 \<le> n \<and> n \<le> 222 \<and> n \<noteq> 215)"
      and e: "char_of (n + 32) = CHR 0x0A"
      unfolding n_def by (auto simp: lower_char_def Let_def split: if_splits)
    from r have small: "n + 32 < 256" by arith
    have "(of_char (char_of (n + 32) :: char) :: nat) = (n + 32) mod 256"
      by (rule of_char_of)
    with small have "(of_char (char_of (n + 32) :: char) :: nat) = n + 32" by simp
    moreover have "(of_char (CHR 0x0A) :: nat) = 10" by simp
    ultimately have "n + 32 = 10" using e by metis
    with r show False by arith
  qed
qed

lemma toLowerCase_no_nl: "CHR 0x0A \<notin> set s \<Longrightarrow> CHR 0x0A \<notin> set (toLowerCase s)"
proof
  assume a: "CHR 0x0A \<notin> set s" and b: "CHR 0x0A \<in> set (toLowerCase s)"
  from b obtain x where x: "x \<in> set s" "lower_char x = CHR 0x0A"
    unfolding toLowerCase_def by (metis imageE list.set_map)
  from x(2) have "x = CHR 0x0A" by (rule lower_char_nl)
  with x(1) a show False by simp
qed

lemma digit_char_hex: "d < 16 \<Longrightarrow> digit_char d \<in> set ''0123456789abcdef''"
  unfolding digit_char_def by (rule nth_mem) simp

lemma show_hex_chars: "set (show_hex n) \<subseteq> set ''0123456789abcdef''"
proof (induction n rule: show_hex.induct)
  case (1 n)
  show ?case
  proof (cases "n < 16")
    case True
    then show ?thesis using digit_char_hex [of n] by (subst show_hex.simps) simp
  next
    case False
    have "n mod 16 < 16" by simp
    then have "digit_char (n mod 16) \<in> set ''0123456789abcdef''" by (rule digit_char_hex)
    with "1.IH" [OF False] False show ?thesis by (subst show_hex.simps) simp
  qed
qed

lemma show_nat_chars: "set (show_nat n) \<subseteq> set ''0123456789abcdef''"
proof (induction n rule: show_nat.induct)
  case (1 n)
  show ?case
  proof (cases "n < 10")
    case True
    then show ?thesis using digit_char_hex [of n] by (subst show_nat.simps) simp
  next
    case False
    have "n mod 10 < 16" by (rule less_trans [OF mod_less_divisor]) simp_all
    then have "digit_char (n mod 10) \<in> set ''0123456789abcdef''" by (rule digit_char_hex)
    with "1.IH" [OF False] False show ?thesis by (subst show_nat.simps) simp
  qed
qed

lemma show_int_chars: "set (show_int i) \<subseteq> set ''-0123456789abcdef''"
proof (cases "i < 0")
  case True
  then have "show_int i = CHR ''-'' # show_nat (nat (- i))" by (simp add: show_int_def)
  then show ?thesis using show_nat_chars [of "nat (- i)"] by (simp add: subset_iff)
next
  case False
  then have "show_int i = show_nat (nat i)" by (simp add: show_int_def)
  then show ?thesis using show_nat_chars [of "nat i"] by (simp add: subset_iff)
qed

lemma hashString_chars: "set (hashString s) \<subseteq> set ''0123456789abcdef''"
  unfolding hashString_def by (rule show_hex_chars)

lemma digits_no_nl: "set s \<subseteq> set ''-0123456789abcdef'' \<Longrightarrow> CHR 0x0A \<notin> set s"
proof -
  have "CHR 0x0A \<notin> set ''-0123456789abcdef''" by simp
  then show "set s \<subseteq> set ''-0123456789abcdef'' \<Longrightarrow> CHR 0x0A \<notin> set s" by blast
qed

lemma hex_subset: "set ''0123456789abcdef'' \<subseteq> set ''-0123456789abcdef''"
  by (simp add: subset_iff)

lemma js_slice_take: "js_slice xs 0 (Some (int k)) = take k xs"
  by (auto simp: js_slice_def slice_index_def Let_def min_def)

lemma key_no_nl:
  assumes "CHR 0x0A \<notin> set file" "CHR 0x0A \<notin> set (take 80 (or_empty header))"
  shows "CHR 0x0A \<notin> set (makeStableKey kind file line header content)"
proof -
  let ?first = "toLowerCase (trim (first_line (or_empty content)))"
  let ?d = "if or_empty header \<noteq> [] then or_empty header else ?first"
  have k: "CHR 0x0A \<notin> set (kind_text kind)" by (cases kind) simp_all
  have i: "CHR 0x0A \<notin> set (show_int (case line of None \<Rightarrow> 0 | Some n \<Rightarrow> n))"
    by (rule digits_no_nl [OF show_int_chars])
  have "CHR 0x0A \<notin> set (trim (first_line (or_empty content)))"
    using first_line_no_nl [of "or_empty content"] set_trim [of "first_line (or_empty content)"]
    by blast
  then have "CHR 0x0A \<notin> set ?first" by (rule toLowerCase_no_nl)
  then have f: "CHR 0x0A \<notin> set (take 80 ?first)"
    using set_take_subset [of 80 ?first] by blast
  have d: "CHR 0x0A \<notin> set (take 80 ?d)"
    using assms(2) f by (cases "or_empty header \<noteq> []") simp_all
  have s: "js_slice ?d 0 (Some 80) = take 80 ?d"
    using js_slice_take [of ?d 80] by simp
  have "makeStableKey kind file line header content
      = kind_text kind @ ''|'' @ file @ ''|''
         @ show_int (case line of None \<Rightarrow> 0 | Some n \<Rightarrow> n) @ ''|'' @ take 80 ?d"
    unfolding makeStableKey_def Let_def s ..
  then show ?thesis using assms(1) k i d by simp
qed

lemma signature_no_nl:
  assumes "CHR 0x0A \<notin> set file" "CHR 0x0A \<notin> set (take 80 (or_empty header))"
  shows "CHR 0x0A \<notin> set (makeUpsertSignature kind file line header content)"
proof -
  let ?key = "makeStableKey kind file line header content"
  have h: "CHR 0x0A \<notin> set (hashString ?key)"
    by (rule digits_no_nl [OF subset_trans [OF hashString_chars hex_subset]])
  have "makeUpsertSignature kind file line header content
      = ''<!-- presubmit.ai: upsert:'' @ hashString ?key @ '':'' @ ?key @ '' -->''"
    unfolding makeUpsertSignature_def Let_def ..
  then show ?thesis using key_no_nl [OF assms, of kind line content] h by simp
qed

lemma signature_not_fence: "\<not> startsWith (makeUpsertSignature kind file line header content) ''```''"
  by (simp add: makeUpsertSignature_def Let_def startsWith_def)

lemma join_nl_head: "str_includes (join_nl (l # ls)) l"
  by (cases ls) (simp_all add: str_includes_def)

lemma buildComment_keeps_first_line:
  assumes "CHR 0x0A \<notin> set l" "\<not> startsWith l ''```''"
  shows "str_includes (buildComment cfg (l @ CHR 0x0A # r)) l"
proof -
  obtain m where m: "truncateCodeBlocks (l @ CHR 0x0A # r) m = l @ (CHR 0x0A # join_nl (truncate_lines m (split_nl r) False 0))
      \<or> truncateCodeBlocks (l @ CHR 0x0A # r) m = l"
    and b: "buildComment cfg (l @ CHR 0x0A # r) = truncateCodeBlocks (l @ CHR 0x0A # r) m @ [CHR 0x0A, CHR 0x0A] @ COMMENT_SIGNATURE"
  proof
    let ?m = "case cfg of None \<Rightarrow> 60 | Some n \<Rightarrow> n"
    show "buildComment cfg (l @ CHR 0x0A # r) = truncateCodeBlocks (l @ CHR 0x0A # r) ?m @ [CHR 0x0A, CHR 0x0A] @ COMMENT_SIGNATURE"
      by (simp add: buildComment_def Let_def)
    have "truncate_lines ?m (split_nl (l @ CHR 0x0A # r)) False 0 = l # truncate_lines ?m (split_nl r) False 0"
      using assms by (simp add: split_nl_first)
    then show "truncateCodeBlocks (l @ CHR 0x0A # r) ?m = l @ (CHR 0x0A # join_nl (truncate_lines ?m (split_nl r) False 0))
        \<or> truncateCodeBlocks (l @ CHR 0x0A # r) ?m = l"
      by (cases "truncate_lines ?m (split_nl r) False 0") (simp_all add: truncateCodeBlocks_def)
  qed
  from m b show ?thesis by (auto simp: str_includes_def)
qed

section \<open>Upsert signatures of file-level findings\<close>

lemma split_at_colon:
  assumes "CHR '':'' \<notin> set a" "CHR '':'' \<notin> set b" "a @ CHR '':'' # x = b @ CHR '':'' # y"
  shows "a = b \<and> x = y"
  using assms
proof (induction a arbitrary: b)
  case Nil
  then show ?case by (cases b) auto
next
  case (Cons c a)
  then show ?case by (cases b) auto
qed

lemma hash_no_colon: "CHR '':'' \<notin> set (hashString k)"
proof -
  have "CHR '':'' \<notin> set ''0123456789abcdef''" by simp
  with hashString_chars [of k] show ?thesis by blast
qed

lemma signature_inj:
  "makeUpsertSignature k1 f1 l1 h1 c1 = makeUpsertSignature k2 f2 l2 h2 c2
   \<Longrightarrow> makeStableKey k1 f1 l1 h1 c1 = makeStableKey k2 f2 l2 h2 c2"
proof -
  let ?a = "makeStableKey k1 f1 l1 h1 c1" and ?b = "makeStableKey k2 f2 l2 h2 c2"
  assume "makeUpsertSignature k1 f1 l1 h1 c1 = makeUpsertSignature k2 f2 l2 h2 c2"
  then have "hashString ?a @ CHR '':'' # (?a @ '' -->'') = hashString ?b @ CHR '':'' # (?b @ '' -->'')"
    by (simp add: makeUpsertSignature_def Let_def)
  from split_at_colon [OF hash_no_colon hash_no_colon this] show ?thesis by simp
qed

lemma key_discriminator:
  "makeStableKey k f l h c
     = kind_text k @ ''|'' @ f @ ''|'' @ show_int (case l of None \<Rightarrow> 0 | Some n \<Rightarrow> n) @ ''|''
       @ discriminator h c"
proof -
  have s: "js_slice xs 0 (Some 80) = take 80 xs" for xs :: string
    using js_slice_take [of xs 80] by simp
  show ?thesis unfolding makeStableKey_def Let_def s discriminator_def ..
qed

lemma signature_same_header:
  "or_empty h \<noteq> [] \<Longrightarrow> makeUpsertSignature k f l h c1 = makeUpsertSignature k f l h c2"
  by (simp add: makeUpsertSignature_def Let_def key_discriminator discriminator_def)

lemma signature_differs:
  "discriminator h1 c1 \<noteq> discriminator h2 c2
   \<Longrightarrow> makeUpsertSignature k f l h1 c1 \<noteq> makeUpsertSignature k f l h2 c2"
  using signature_inj [of k f l h1 c1 k f l h2 c2] by (auto simp: key_discriminator)

lemma upsert_carried:
  assumes "str_includes body sig"
  shows "find (carries sig) (upsertIssueCommentBySignature cs sig body) \<noteq> None"
proof (cases "find (carries sig) cs")
  case None
  have "carries sig \<lparr>ic_id = fresh_id cs, ic_body = Some body\<rparr>" using assms by (simp add: carries_def)
  then show ?thesis
    using None
    by (simp add: upsertIssueCommentBySignature_def find_signed_find createComment_def find_append_case)
next
  case (Some e)
  then have e: "e \<in> set cs" unfolding find_Some_iff by auto
  let ?e' = "e\<lparr>ic_body := Some body\<rparr>"
  have "?e' \<in> set (updateComment cs (ic_id e) body)"
    using e by (force simp: updateComment_def)
  moreover have "carries sig ?e'" using assms by (simp add: carries_def)
  ultimately have "find (carries sig) (updateComment cs (ic_id e) body) \<noteq> None"
    unfolding find_None_iff by blast
  then show ?thesis using Some by (simp add: upsertIssueCommentBySignature_def find_signed_find)
qed

lemma upsert_length_found:
  "find (carries sig) cs \<noteq> None \<Longrightarrow> length (upsertIssueCommentBySignature cs sig body) = length cs"
  by (auto simp: upsertIssueCommentBySignature_def find_signed_find updateComment_def)

lemma file_note_posted_carries:
  assumes "CHR 0x0A \<notin> set (resolveReviewPath files (ai_file c))"
    and "CHR 0x0A \<notin> set (take 80 (or_empty (ai_header c)))"
  shows "str_includes (buildComment cfg (file_note_body files c)) (file_note_signature files c)"
proof -
  have "CHR 0x0A \<notin> set (file_note_signature files c)"
    unfolding file_note_signature_def by (rule signature_no_nl [OF assms])
  moreover have "\<not> startsWith (file_note_signature files c) ''```''"
    unfolding file_note_signature_def by (rule signature_not_fence)
  moreover have "\<exists>r. file_note_body files c = file_note_signature files c @ CHR 0x0A # r"
    by (simp add: file_note_body_def Let_def)
  ultimately show ?thesis using buildComment_keeps_first_line by metis
qed

lemma upsert_writes:
  "\<exists>c\<in>set (upsertIssueCommentBySignature cs sig body).
      ic_id c = upsert_target cs sig \<and> ic_body c = Some body"
proof (cases "find (carries sig) cs")
  case None
  then show ?thesis
    by (simp add: upsertIssueCommentBySignature_def upsert_target_def find_signed_find
        createComment_def)
next
  case (Some e)
  then have e: "e \<in> set cs" unfolding find_Some_iff by auto
  then have "e\<lparr>ic_body := Some body\<rparr> \<in> set (updateComment cs (ic_id e) body)"
    by (force simp: updateComment_def)
  then show ?thesis
    using Some
    by (auto simp: upsertIssueCommentBySignature_def upsert_target_def find_signed_find
        intro!: bexI [of _ "e\<lparr>ic_body := Some body\<rparr>"])
qed

lemma upsert_writes_all:
  "c \<in> set (upsertIssueCommentBySignature cs sig body) \<Longrightarrow> ic_id c = upsert_target cs sig
   \<Longrightarrow> ic_body c = Some body"
proof (cases "find (carries sig) cs")
  case None
  assume c: "c \<in> set (upsertIssueCommentBySignature cs sig body)" "ic_id c = upsert_target cs sig"
  from None have t: "upsert_target cs sig = fresh_id cs"
    by (simp add: upsert_target_def find_signed_find)
  from None c(1) have "c \<in> set cs \<or> c = \<lparr>ic_id = fresh_id cs, ic_body = Some body\<rparr>"
    by (auto simp: upsertIssueCommentBySignature_def find_signed_find createComment_def)
  with c(2) t ic_id_less_fresh [of c cs] show ?thesis by auto
next
  case (Some e)
  assume c: "c \<in> set (upsertIssueCommentBySignature cs sig body)" "ic_id c = upsert_target cs sig"
  from Some have t: "upsert_target cs sig = ic_id e"
    by (simp add: upsert_target_def find_signed_find)
  from Some c(1) have "c \<in> set (updateComment cs (ic_id e) body)"
    by (simp add: upsertIssueCommentBySignature_def find_signed_find)
  with c(2) t show ?thesis by (auto simp: updateComment_def split: if_splits)
qed

lemma upsert_ids:
  "find (carries sig) cs \<noteq> None
   \<Longrightarrow> map ic_id (upsertIssueCommentBySignature cs sig body) = map ic_id cs"
  by (auto simp: upsertIssueCommentBySignature_def find_signed_find updateComment_def)

lemma upsert_target_again:
  assumes "str_includes body sig"
  shows "upsert_target (upsertIssueCommentBySignature cs sig body) sig = upsert_target cs sig"
proof -
  let ?P = "upsertIssueCommentBySignature cs sig body"
  from upsert_carried [OF assms, of cs] obtain x where x: "find (carries sig) ?P = Some x"
    by blast
  then obtain k where k: "k < length ?P" "carries sig (?P ! k)" "x = ?P ! k"
      "\<forall>j<k. \<not> carries sig (?P ! j)"
    unfolding find_Some_iff by blast
  have tx: "upsert_target ?P sig = ic_id x"
    using x by (simp add: upsert_target_def find_signed_find)
  show ?thesis
  proof (cases "find (carries sig) cs")
    case None
    have P: "?P = cs @ [\<lparr>ic_id = fresh_id cs, ic_body = Some body\<rparr>]"
      using None by (simp add: upsertIssueCommentBySignature_def find_signed_find createComment_def)
    have "carries sig \<lparr>ic_id = fresh_id cs, ic_body = Some body\<rparr>"
      using assms by (simp add: carries_def)
    then have "find (carries sig) ?P = Some \<lparr>ic_id = fresh_id cs, ic_body = Some body\<rparr>"
      unfolding P using None by (simp add: find_append_case)
    with x have "x = \<lparr>ic_id = fresh_id cs, ic_body = Some body\<rparr>" by simp
    then have "ic_id x = fresh_id cs" by simp
    with tx None show ?thesis by (simp add: upsert_target_def find_signed_find)
  next
    case (Some e)
    define upd :: "IssueComment \<Rightarrow> IssueComment"
      where "upd = (\<lambda>c. if ic_id c = ic_id e then c\<lparr>ic_body := Some body\<rparr> else c)"
    have P: "?P = map upd cs"
      using Some
      by (simp add: upsertIssueCommentBySignature_def find_signed_find updateComment_def upd_def)
    from Some obtain i where i: "i < length cs" "carries sig (cs ! i)" "e = cs ! i"
        "\<forall>j<i. \<not> carries sig (cs ! j)"
      unfolding find_Some_iff by blast
    have upd_id: "ic_id (upd c) = ic_id c" for c by (simp add: upd_def)
    have ci: "carries sig (?P ! i)"
      unfolding P using i(1,3) assms by (simp add: upd_def carries_def)
    from k(1) have kl: "k < length cs" by (simp add: P)
    have xk: "x = upd (cs ! k)" using k(3) kl by (simp add: P)
    have kid: "ic_id x = ic_id e"
    proof (rule ccontr)
      assume ne: "ic_id x \<noteq> ic_id e"
      with xk have nk: "ic_id (cs ! k) \<noteq> ic_id e" by (simp add: upd_id)
      then have "upd (cs ! k) = cs ! k" by (simp add: upd_def)
      with k(2) kl have "carries sig (cs ! k)" by (simp add: P)
      with i(4) have "\<not> k < i" by blast
      moreover have "\<not> i < k" using k(4) ci by blast
      ultimately have "k = i" by simp
      with i(3) nk show False by simp
    qed
    with tx Some show ?thesis by (simp add: upsert_target_def find_signed_find)
  qed
qed

lemma upsert_again:
  assumes "str_includes body sig"
  shows "upsertIssueCommentBySignature (upsertIssueCommentBySignature cs sig body) sig body'
           = updateComment (upsertIssueCommentBySignature cs sig body) (upsert_target cs sig) body'"
proof -
  let ?P = "upsertIssueCommentBySignature cs sig body"
  from upsert_carried [OF assms, of cs] obtain x where x: "find (carries sig) ?P = Some x"
    by blast
  then have "upsert_target ?P sig = ic_id x" by (simp add: upsert_target_def find_signed_find)
  with upsert_target_again [OF assms, of cs] have "ic_id x = upsert_target cs sig" by simp
  with x show ?thesis by (simp add: upsertIssueCommentBySignature_def find_signed_find)
qed

text \<open>
  C3, as the code has it. The signature of a file-level finding is computed from the
  kind, the resolved file, the line 0 and the discriminator: the first 80 characters
  of the header, or of the first content line (trimmed, lower case) when there is no
  header. So two findings on the same file with the same non-empty header have the
  same signature whatever their content; two findings on the same file without a
  header whose first content lines differ in that form have different signatures.
  When the resolved file name and the first 80 characters of the header hold no line
  feed, the posted body contains the signature, and after the finding is posted the
  host holds a comment that carries the signature and whose body is the posted body:
  the comment with the id \<open>upsert_target\<close>. Posting the identical finding again leaves
  the host's comments as they are (an update, no duplicate). Posting a finding with the
  same signature is an update of that same comment: the result is \<open>updateComment\<close> of it
  with the body of the second finding, the ids and the number of the comments stay,
  and every comment with that id now holds the body of the second finding, the body of
  the first is replaced. Characters are the code units below 256, so the statement is
  about findings whose file name, header and content lie in that range.
\<close>

theorem upsert_signature_rule:
  "(ai_file c1 = ai_file c2 \<and> ai_header c1 = ai_header c2 \<and> or_empty (ai_header c1) \<noteq> []
      \<longrightarrow> file_note_signature files c1 = file_note_signature files c2)
   \<and> (ai_file c1 = ai_file c2 \<and> or_empty (ai_header c1) = [] \<and> or_empty (ai_header c2) = []
        \<and> take 80 (toLowerCase (trim (first_line (ai_content c1))))
            \<noteq> take 80 (toLowerCase (trim (first_line (ai_content c2))))
      \<longrightarrow> file_note_signature files c1 \<noteq> file_note_signature files c2)
   \<and> (CHR 0x0A \<notin> set (resolveReviewPath files (ai_file c1))
        \<and> CHR 0x0A \<notin> set (take 80 (or_empty (ai_header c1)))
      \<longrightarrow> str_includes (buildComment cfg (file_note_body files c1)) (file_note_signature files c1)
          \<and> (\<exists>c\<in>set (post_file_comment cfg files cs c1).
                ic_id c = upsert_target cs (file_note_signature files c1)
                \<and> ic_body c = Some (buildComment cfg (file_note_body files c1))
                \<and> carries (file_note_signature files c1) c)
          \<and> post_file_comment cfg files (post_file_comment cfg files cs c1) c1
              = post_file_comment cfg files cs c1
          \<and> (file_note_signature files c2 = file_note_signature files c1
              \<longrightarrow> post_file_comment cfg files (post_file_comment cfg files cs c1) c2
                    = updateComment (post_file_comment cfg files cs c1)
                        (upsert_target cs (file_note_signature files c1))
                        (buildComment cfg (file_note_body files c2))
                  \<and> map ic_id (post_file_comment cfg files (post_file_comment cfg files cs c1) c2)
                      = map ic_id (post_file_comment cfg files cs c1)
                  \<and> length (post_file_comment cfg files (post_file_comment cfg files cs c1) c2)
                      = length (post_file_comment cfg files cs c1)
                  \<and> (\<exists>c\<in>set (post_file_comment cfg files (post_file_comment cfg files cs c1) c2).
                        ic_id c = upsert_target cs (file_note_signature files c1)
                        \<and> ic_body c = Some (buildComment cfg (file_note_body files c2)))
                  \<and> (\<forall>c\<in>set (post_file_comment cfg files (post_file_comment cfg files cs c1) c2).
                        ic_id c = upsert_target cs (file_note_signature files c1)
                        \<longrightarrow> ic_body c = Some (buildComment cfg (file_note_body files c2)))))"
proof -
  let ?s1 = "file_note_signature files c1" and ?s2 = "file_note_signature files c2"
  let ?b1 = "buildComment cfg (file_note_body files c1)"
  let ?b2 = "buildComment cfg (file_note_body files c2)"
  let ?P = "post_file_comment cfg files cs c1"
  let ?Q = "post_file_comment cfg files ?P c2"
  let ?t = "upsert_target cs ?s1"
  have a: "?s1 = ?s2"
    if "ai_file c1 = ai_file c2" "ai_header c1 = ai_header c2" "or_empty (ai_header c1) \<noteq> []"
    using that signature_same_header [of "ai_header c2"]
    by (simp add: file_note_signature_def)
  have b: "?s1 \<noteq> ?s2"
    if "ai_file c1 = ai_file c2" "or_empty (ai_header c1) = []" "or_empty (ai_header c2) = []"
       "take 80 (toLowerCase (trim (first_line (ai_content c1))))
            \<noteq> take 80 (toLowerCase (trim (first_line (ai_content c2))))"
  proof -
    from that(2-4)
    have "discriminator (ai_header c1) (Some (ai_content c1))
        \<noteq> discriminator (ai_header c2) (Some (ai_content c2))"
      by (simp add: discriminator_def or_empty_def)
    then show ?thesis
      unfolding file_note_signature_def that(1) by (rule signature_differs)
  qed
  have c: "str_includes ?b1 ?s1
          \<and> (\<exists>c\<in>set ?P. ic_id c = ?t \<and> ic_body c = Some ?b1 \<and> carries ?s1 c)
          \<and> post_file_comment cfg files ?P c1 = ?P
          \<and> (?s2 = ?s1
              \<longrightarrow> ?Q = updateComment ?P ?t ?b2
                  \<and> map ic_id ?Q = map ic_id ?P
                  \<and> length ?Q = length ?P
                  \<and> (\<exists>c\<in>set ?Q. ic_id c = ?t \<and> ic_body c = Some ?b2)
                  \<and> (\<forall>c\<in>set ?Q. ic_id c = ?t \<longrightarrow> ic_body c = Some ?b2))"
    if "CHR 0x0A \<notin> set (resolveReviewPath files (ai_file c1))"
       "CHR 0x0A \<notin> set (take 80 (or_empty (ai_header c1)))"
  proof -
    have inc: "str_includes ?b1 ?s1"
      by (rule file_note_posted_carries [OF that])
    have P: "?P = upsertIssueCommentBySignature cs ?s1 ?b1"
      by (simp add: post_file_comment_def)
    from upsert_writes [of cs ?s1 ?b1]
    obtain c where c: "c \<in> set ?P" "ic_id c = ?t" "ic_body c = Some ?b1"
      unfolding P by blast
    from c(3) inc have "carries ?s1 c" by (simp add: carries_def)
    with c have held: "\<exists>c\<in>set ?P. ic_id c = ?t \<and> ic_body c = Some ?b1 \<and> carries ?s1 c"
      by blast
    have idem: "post_file_comment cfg files ?P c1 = ?P"
      unfolding post_file_comment_def by (rule upsert_idempotent [OF inc])
    have over: "?Q = updateComment ?P ?t ?b2
                  \<and> map ic_id ?Q = map ic_id ?P
                  \<and> length ?Q = length ?P
                  \<and> (\<exists>c\<in>set ?Q. ic_id c = ?t \<and> ic_body c = Some ?b2)
                  \<and> (\<forall>c\<in>set ?Q. ic_id c = ?t \<longrightarrow> ic_body c = Some ?b2)"
      if eq: "?s2 = ?s1"
    proof -
      have Q: "?Q = upsertIssueCommentBySignature ?P ?s1 ?b2"
        by (simp add: post_file_comment_def eq)
      have t: "upsert_target ?P ?s1 = ?t"
        unfolding P by (rule upsert_target_again [OF inc])
      have 1: "?Q = updateComment ?P ?t ?b2"
        unfolding Q unfolding P by (rule upsert_again [OF inc])
      have car: "find (carries ?s1) ?P \<noteq> None"
        unfolding P by (rule upsert_carried [OF inc])
      have 2: "map ic_id ?Q = map ic_id ?P"
        unfolding Q by (rule upsert_ids [OF car])
      have 3: "length ?Q = length ?P"
        unfolding Q by (rule upsert_length_found [OF car])
      have 4: "\<exists>c\<in>set ?Q. ic_id c = ?t \<and> ic_body c = Some ?b2"
        using upsert_writes [of ?P ?s1 ?b2] unfolding Q t .
      have 5: "\<forall>c\<in>set ?Q. ic_id c = ?t \<longrightarrow> ic_body c = Some ?b2"
        using upsert_writes_all [of _ ?P ?s1 ?b2] unfolding Q t by blast
      from 1 2 3 4 5 show ?thesis by blast
    qed
    from inc held idem over show ?thesis by blast
  qed
  from a b c show ?thesis by blast
qed

text \<open>
  The claim as stated fails: the two findings differ in content only, their signatures
  are equal, and posting the second after the first leaves one comment, which now
  holds the text of the second.
\<close>

theorem changed_content_same_signature:
  "ai_file note_v1 = ai_file note_v2 \<and> ai_header note_v1 = ai_header note_v2
   \<and> ai_content note_v1 \<noteq> ai_content note_v2
   \<and> file_note_signature [] note_v1 = file_note_signature [] note_v2
   \<and> map ic_body (post_file_comment None [] (post_file_comment None [] [] note_v1) note_v2)
       = [Some (buildComment None (file_note_body [] note_v2))]"
proof -
  have f: "ai_file note_v1 = ai_file note_v2" "ai_header note_v1 = ai_header note_v2"
    "ai_content note_v1 \<noteq> ai_content note_v2"
    by (simp_all add: note_v1_def note_v2_def file_note_def)
  have s: "file_note_signature [] note_v1 = file_note_signature [] note_v2"
    by (simp add: file_note_signature_def note_v1_def note_v2_def file_note_def
        signature_same_header or_empty_def)
  have "CHR 0x0A \<notin> set (resolveReviewPath [] (ai_file note_v1))"
       "CHR 0x0A \<notin> set (take 80 (or_empty (ai_header note_v1)))"
    by (simp_all add: note_v1_def file_note_def resolveReviewPath_def or_empty_def)
  then have inc: "str_includes (buildComment None (file_note_body [] note_v1))
                    (file_note_signature [] note_v1)"
    by (rule file_note_posted_carries)
  let ?b1 = "buildComment None (file_note_body [] note_v1)"
  let ?b2 = "buildComment None (file_note_body [] note_v2)"
  have p1: "post_file_comment None [] [] note_v1 = [\<lparr>ic_id = fresh_id [], ic_body = Some ?b1\<rparr>]"
    by (simp add: post_file_comment_def upsertIssueCommentBySignature_def find_signed_find
        createComment_def)
  have "carries (file_note_signature [] note_v2) \<lparr>ic_id = fresh_id [], ic_body = Some ?b1\<rparr>"
    using inc s by (simp add: carries_def)
  then have "post_file_comment None [] [\<lparr>ic_id = fresh_id [], ic_body = Some ?b1\<rparr>] note_v2
      = [\<lparr>ic_id = fresh_id [], ic_body = Some ?b2\<rparr>]"
    by (simp add: post_file_comment_def upsertIssueCommentBySignature_def find_signed_find
        updateComment_def)
  with p1 f s show ?thesis by simp
qed

theorem upsert_signature_rule_witness:
  "file_note_signature [] note_v1 = file_note_signature [] note_v2
   \<and> file_note_signature [] plain_note_a \<noteq> file_note_signature [] plain_note_b
   \<and> (\<exists>c\<in>set (post_file_comment None [] [] note_v1).
         ic_body c = Some (buildComment None (file_note_body [] note_v1))
         \<and> carries (file_note_signature [] note_v1) c)
   \<and> post_file_comment None [] (post_file_comment None [] [] note_v1) note_v1
       = post_file_comment None [] [] note_v1
   \<and> post_file_comment None [] (post_file_comment None [] [] note_v1) note_v2
       = updateComment (post_file_comment None [] [] note_v1)
           (upsert_target [] (file_note_signature [] note_v1))
           (buildComment None (file_note_body [] note_v2))
   \<and> length (post_file_comment None [] (post_file_comment None [] [] note_v1) note_v2)
       = length (post_file_comment None [] [] note_v1)
   \<and> (\<exists>c\<in>set (post_file_comment None [] (post_file_comment None [] [] note_v1) note_v2).
         ic_body c = Some (buildComment None (file_note_body [] note_v2)))"
proof -
  have h1: "ai_file note_v1 = ai_file note_v2 \<and> ai_header note_v1 = ai_header note_v2
      \<and> or_empty (ai_header note_v1) \<noteq> []"
    by (simp add: note_v1_def note_v2_def file_note_def or_empty_def)
  have h2: "CHR 0x0A \<notin> set (resolveReviewPath [] (ai_file note_v1))
      \<and> CHR 0x0A \<notin> set (take 80 (or_empty (ai_header note_v1)))"
    by (simp add: note_v1_def file_note_def resolveReviewPath_def or_empty_def)
  have h3: "ai_file plain_note_a = ai_file plain_note_b \<and> or_empty (ai_header plain_note_a) = []
      \<and> or_empty (ai_header plain_note_b) = []
      \<and> take 80 (toLowerCase (trim (first_line (ai_content plain_note_a))))
          \<noteq> take 80 (toLowerCase (trim (first_line (ai_content plain_note_b))))"
    by code_simp
  note t = upsert_signature_rule [of note_v1 note_v2 "[]" None "[]"]
  from t h1 have 1: "file_note_signature [] note_v1 = file_note_signature [] note_v2"
    by blast
  from t h2 have 2: "post_file_comment None [] (post_file_comment None [] [] note_v1) note_v1
       = post_file_comment None [] [] note_v1"
    by blast
  from t h2 have 5: "\<exists>c\<in>set (post_file_comment None [] [] note_v1).
         ic_body c = Some (buildComment None (file_note_body [] note_v1))
         \<and> carries (file_note_signature [] note_v1) c"
    by blast
  from t h2 1 have r: "post_file_comment None [] (post_file_comment None [] [] note_v1) note_v2
       = updateComment (post_file_comment None [] [] note_v1)
           (upsert_target [] (file_note_signature [] note_v1))
           (buildComment None (file_note_body [] note_v2))
     \<and> length (post_file_comment None [] (post_file_comment None [] [] note_v1) note_v2)
       = length (post_file_comment None [] [] note_v1)
     \<and> (\<exists>c\<in>set (post_file_comment None [] (post_file_comment None [] [] note_v1) note_v2).
         ic_id c = upsert_target [] (file_note_signature [] note_v1)
         \<and> ic_body c = Some (buildComment None (file_note_body [] note_v2)))"
    by metis
  from upsert_signature_rule [of plain_note_a plain_note_b "[]" None "[]"] h3
  have 4: "file_note_signature [] plain_note_a \<noteq> file_note_signature [] plain_note_b"
    by blast
  from 1 2 r 4 5 show ?thesis by blast
qed

section \<open>Thread continuity across a rename\<close>

lemma thread_on_relevant: "isThreadRelevant (thread_on p e s)"
proof -
  have "str_includes (''Check this.'' @ [CHR 0x0A, CHR 0x0A] @ COMMENT_SIGNATURE) COMMENT_SIGNATURE"
    by (rule str_includes_append_tail)
  then show ?thesis
    unfolding isThreadRelevant_def thread_on_def by simp
qed

lemma threadsIndex_single:
  "threadsIndex [thread_on p e s] = [makeKey p (Some e) s \<mapsto> thread_on p e s]"
  by (simp add: threadsIndex_def thread_on_def)

text \<open>
  C2 does not hold on the code. The file list records the rename of \<open>old.ts\<close> to
  \<open>new.ts\<close>, the only thread is rooted on \<open>old.ts\<close> at the lines \<open>(s, e)\<close>, the finding is
  anchored on \<open>new.ts\<close> at the same lines: the thread is relevant and sits in the index
  under the key of \<open>old.ts\<close>, the finding is looked up under the key of \<open>new.ts\<close>, no
  thread is found, and the finding is a new anchored comment, not a reply. The same
  finding does become a reply when the thread is rooted on \<open>new.ts\<close>.
\<close>

theorem rename_thread_not_matched:
  "isThreadRelevant (thread_on ''old.ts'' e s)
   \<and> resolveReviewPath [renamed_file] (ai_file (anchored_finding ''new.ts'' e s)) = ''new.ts''
   \<and> existing_thread [thread_on ''old.ts'' e s] [renamed_file] (anchored_finding ''new.ts'' e s) = None
   \<and> anchorComments [thread_on ''old.ts'' e s] [renamed_file] [anchored_finding ''new.ts'' e s]
       = [anchored_finding ''new.ts'' e s]
   \<and> replyCandidates [thread_on ''old.ts'' e s] [renamed_file] [anchored_finding ''new.ts'' e s] = []
   \<and> replyCandidates [thread_on ''new.ts'' e s] [renamed_file] [anchored_finding ''new.ts'' e s]
       = [anchored_finding ''new.ts'' e s]"
proof -
  have r: "resolveReviewPath [renamed_file] (ai_file (anchored_finding ''new.ts'' e s)) = ''new.ts''"
    by (simp add: resolveReviewPath_def renamed_file_def anchored_finding_def)
  have k: "makeKey ''new.ts'' (Some e) s \<noteq> makeKey ''old.ts'' (Some e) s"
    by (simp add: makeKey_def)
  have x: "existing_thread [thread_on ''old.ts'' e s] [renamed_file] (anchored_finding ''new.ts'' e s) = None"
    unfolding existing_thread_def r
    using k by (simp add: thread_on_relevant threadsIndex_single findExistingThread_def
        anchored_finding_def)
  have y: "existing_thread [thread_on ''new.ts'' e s] [renamed_file] (anchored_finding ''new.ts'' e s)
      = Some (thread_on ''new.ts'' e s)"
    unfolding existing_thread_def r
    by (simp add: thread_on_relevant threadsIndex_single findExistingThread_def
        anchored_finding_def)
  from r x y thread_on_relevant [of "''old.ts''" e s] show ?thesis
    by (simp add: anchorComments_def replyCandidates_def)
qed

section \<open>A malformed stored run state never fails the run\<close>

lemma commitsReviewed_degrades:
  assumes "parse (payloadJson b) = None
           \<or> (\<exists>v. parse (payloadJson b) = Some v \<and> \<not> has_commits_array v)"
  shows "commitsReviewed parse b = []"
  using assms
proof
  assume "parse (payloadJson b) = None"
  then show ?thesis by (simp add: commitsReviewed_def read_commits_def)
next
  assume "\<exists>v. parse (payloadJson b) = Some v \<and> \<not> has_commits_array v"
  then obtain v where v: "parse (payloadJson b) = Some v" "\<not> has_commits_array v" by blast
  from v(2) show ?thesis
    unfolding commitsReviewed_def read_commits_def v(1)
    by (cases v) (auto simp: has_commits_array_def split: option.splits json.splits)
qed

lemma incremental_scope_full:
  "commitsReviewed parse b = [] \<Longrightarrow>
   incremental_scope parse loose_eq compareCommits b head files commits = Inr (files, commits, [])"
  by (simp add: incremental_scope_def Let_def lastCommitReviewed_def)

lemma payloadJson_default:
  assumes "\<not> str_includes (or_empty b) PAYLOAD_TAG_OPEN \<or> \<not> str_includes (or_empty b) PAYLOAD_TAG_CLOSE
     \<or> indexOf (or_empty b) PAYLOAD_TAG_CLOSE
          (nat (indexOf (or_empty b) PAYLOAD_TAG_OPEN 0 + int (length PAYLOAD_TAG_OPEN)))
        \<le> indexOf (or_empty b) PAYLOAD_TAG_OPEN 0 + int (length PAYLOAD_TAG_OPEN)"
  shows "payloadJson b = ''{}''"
  using assms by (auto simp: payloadJson_def Let_def)

text \<open>
  C8. Whatever the overview comment's body: when a marker is missing, or the closing
  marker is not found after the opening one, or the text between them is not valid
  JSON (\<open>JSON.parse\<close> throws), or the parsed value has no array under \<open>commits\<close> (also
  when it is \<open>null\<close> and reading the property throws), the reviewed commits are the empty
  list, every error raised in the \<open>try\<close> block is absorbed, no comparison with the host
  is made, and the run goes on with all the files and all the commits. \<open>JSON.parse\<close>
  is only assumed to read \<open>{}\<close> as the empty object.
\<close>

theorem stored_state_degrades:
  assumes "parse ''{}'' = Some (JObj [])"
  shows "(\<not> str_includes (or_empty b) PAYLOAD_TAG_OPEN
          \<or> \<not> str_includes (or_empty b) PAYLOAD_TAG_CLOSE
          \<or> indexOf (or_empty b) PAYLOAD_TAG_CLOSE
               (nat (indexOf (or_empty b) PAYLOAD_TAG_OPEN 0 + int (length PAYLOAD_TAG_OPEN)))
             \<le> indexOf (or_empty b) PAYLOAD_TAG_OPEN 0 + int (length PAYLOAD_TAG_OPEN)
          \<or> parse (payloadJson b) = None
          \<or> (\<exists>v. parse (payloadJson b) = Some v \<and> \<not> has_commits_array v)
          \<or> (\<exists>e. read_commits parse b = Inl e))
         \<longrightarrow> commitsReviewed parse b = []
             \<and> incremental_scope parse loose_eq compareCommits b head files commits
                 = Inr (files, commits, [])"
proof
  assume h: "\<not> str_includes (or_empty b) PAYLOAD_TAG_OPEN
          \<or> \<not> str_includes (or_empty b) PAYLOAD_TAG_CLOSE
          \<or> indexOf (or_empty b) PAYLOAD_TAG_CLOSE
               (nat (indexOf (or_empty b) PAYLOAD_TAG_OPEN 0 + int (length PAYLOAD_TAG_OPEN)))
             \<le> indexOf (or_empty b) PAYLOAD_TAG_OPEN 0 + int (length PAYLOAD_TAG_OPEN)
          \<or> parse (payloadJson b) = None
          \<or> (\<exists>v. parse (payloadJson b) = Some v \<and> \<not> has_commits_array v)
          \<or> (\<exists>e. read_commits parse b = Inl e)"
  have empty: "\<not> has_commits_array (JObj [])" by (simp add: has_commits_array_def)
  have "commitsReviewed parse b = []"
  proof -
    consider
      (markers) "payloadJson b = ''{}''"
      | (invalid) "parse (payloadJson b) = None
           \<or> (\<exists>v. parse (payloadJson b) = Some v \<and> \<not> has_commits_array v)"
      | (raised) "\<exists>e. read_commits parse b = Inl e"
      using h payloadJson_default [of b] by blast
    then show ?thesis
    proof cases
      case markers
      with assms empty show ?thesis by (intro commitsReviewed_degrades) simp
    next
      case invalid
      then show ?thesis by (rule commitsReviewed_degrades)
    next
      case raised
      then show ?thesis by (auto simp: commitsReviewed_def)
    qed
  qed
  then show "commitsReviewed parse b = []
      \<and> incremental_scope parse loose_eq compareCommits b head files commits
          = Inr (files, commits, [])"
    by (simp add: incremental_scope_full)
qed

theorem stored_state_degrades_witness:
  "commitsReviewed parse_sample None = []
   \<and> commitsReviewed parse_sample (Some swapped_overview) = []
   \<and> commitsReviewed parse_sample (Some broken_overview) = []
   \<and> commitsReviewed parse_sample (Some null_overview) = []
   \<and> incremental_scope parse_sample (\<lambda>v s. False) (\<lambda>v s. Inl HostError) (Some broken_overview)
        ''head'' [file_named ''a''] [\<lparr>c_sha = ''c1'', c_message = ''m''\<rparr>]
       = Inr ([file_named ''a''], [\<lparr>c_sha = ''c1'', c_message = ''m''\<rparr>], [])"
proof -
  have p: "parse_sample ''{}'' = Some (JObj [])" by (simp add: parse_sample_def)
  have 1: "\<not> str_includes (or_empty None) PAYLOAD_TAG_OPEN" by code_simp
  have 2: "indexOf (or_empty (Some swapped_overview)) PAYLOAD_TAG_CLOSE
               (nat (indexOf (or_empty (Some swapped_overview)) PAYLOAD_TAG_OPEN 0
                     + int (length PAYLOAD_TAG_OPEN)))
             \<le> indexOf (or_empty (Some swapped_overview)) PAYLOAD_TAG_OPEN 0
                 + int (length PAYLOAD_TAG_OPEN)"
    by code_simp
  have 3: "parse_sample (payloadJson (Some broken_overview)) = None" by code_simp
  have 4: "read_commits parse_sample (Some null_overview) = Inl TypeError" by code_simp
  note t = stored_state_degrades [where parse = parse_sample and loose_eq = "\<lambda>v s. False"
      and compareCommits = "\<lambda>v s. Inl HostError" and head = "''head''"
      and files = "[file_named ''a'']" and commits = "[\<lparr>c_sha = ''c1'', c_message = ''m''\<rparr>]",
      OF p]
  from t [of None] 1 have a: "commitsReviewed parse_sample None = []" by blast
  from t [of "Some swapped_overview"] 2
  have b: "commitsReviewed parse_sample (Some swapped_overview) = []" by blast
  from t [of "Some broken_overview"] 3
  have c: "commitsReviewed parse_sample (Some broken_overview) = []
      \<and> incremental_scope parse_sample (\<lambda>v s. False) (\<lambda>v s. Inl HostError) (Some broken_overview)
        ''head'' [file_named ''a''] [\<lparr>c_sha = ''c1'', c_message = ''m''\<rparr>]
       = Inr ([file_named ''a''], [\<lparr>c_sha = ''c1'', c_message = ''m''\<rparr>], [])"
    by blast
  from t [of "Some null_overview"] 4
  have d: "commitsReviewed parse_sample (Some null_overview) = []" by blast
  from a b c d show ?thesis by blast
qed

section \<open>The fallback after a failed batch\<close>

lemma join_split_nl: "join_nl (split_nl s) = s"
proof (induction s)
  case Nil
  show ?case by simp
next
  case (Cons c cs)
  show ?case
  proof (cases "c = CHR 0x0A")
    case True
    with Cons show ?thesis by (cases "split_nl cs") (simp_all add: split_nl_nonempty)
  next
    case False
    obtain l ls where sp: "split_nl cs = l # ls"
      using split_nl_nonempty [of cs] by (cases "split_nl cs") auto
    with Cons False show ?thesis by (cases ls) simp_all
  qed
qed

lemma split_nl_subset: "l \<in> set (split_nl s) \<Longrightarrow> set l \<subseteq> set s"
proof (induction s arbitrary: l)
  case Nil
  then show ?case by simp
next
  case (Cons c cs)
  obtain a ls where sp: "split_nl cs = a # ls"
    using split_nl_nonempty [of cs] by (cases "split_nl cs") auto
  show ?case
  proof (cases "c = CHR 0x0A")
    case True
    with Cons.prems have "l = [] \<or> l \<in> set (split_nl cs)" by simp
    then show ?thesis using Cons.IH by auto
  next
    case False
    with Cons.prems sp have "l = c # a \<or> l \<in> set ls" by simp
    then show ?thesis
    proof
      assume "l = c # a"
      moreover have "set a \<subseteq> set cs" using Cons.IH [of a] sp by simp
      ultimately show ?thesis by auto
    next
      assume "l \<in> set ls"
      then have "set l \<subseteq> set cs" using Cons.IH [of l] sp by simp
      then show ?thesis by auto
    qed
  qed
qed

lemma truncate_lines_no_fence:
  "\<forall>l \<in> set ls. \<not> startsWith l ''```'' \<Longrightarrow> truncate_lines m ls False k = ls"
  by (induction ls) auto

lemma startsWith_backtick: "startsWith l ''```'' \<Longrightarrow> CHR 0x60 \<in> set l"
  by (cases l) (auto simp: startsWith_def)

lemma no_backtick_no_truncation:
  assumes "CHR 0x60 \<notin> set t"
  shows "truncateCodeBlocks t m = t"
proof -
  have "\<forall>l \<in> set (split_nl t). \<not> startsWith l ''```''"
    using assms split_nl_subset startsWith_backtick by blast
  then show ?thesis
    by (simp add: truncateCodeBlocks_def truncate_lines_no_fence join_split_nl)
qed

lemma retry_loop_3:
  "withRetries fn 3 =
     (case fn 0 of Inr v \<Rightarrow> Inr v
      | Inl e0 \<Rightarrow> (case fn 1 of Inr v \<Rightarrow> Inr v
         | Inl e1 \<Rightarrow> (case fn 2 of Inr v \<Rightarrow> Inr v | Inl e2 \<Rightarrow> Inl (Some e2))))"
  by (simp add: withRetries_def numeral_3_eq_3 numeral_2_eq_2 split: sum.splits)

























lemma signature_no_backtick:
  assumes "CHR 0x60 \<notin> set (makeStableKey k f l h c)"
  shows "CHR 0x60 \<notin> set (makeUpsertSignature k f l h c)"
proof -
  let ?key = "makeStableKey k f l h c"
  have "CHR 0x60 \<notin> set ''0123456789abcdef''" by simp
  with hashString_chars [of ?key] have hx: "CHR 0x60 \<notin> set (hashString ?key)" by blast
  have "makeUpsertSignature k f l h c
      = ''<!-- presubmit.ai: upsert:'' @ hashString ?key @ '':'' @ ?key @ '' -->''"
    unfolding makeUpsertSignature_def Let_def ..
  then show ?thesis using assms hx by simp
qed






text \<open>
  Two findings anchored at the same line of the same file. \<open>find_orig\<close> looks the
  finding of a comment up by file and end line and returns the first of the two for
  both comments, so both fallback signatures are computed from the header of the
  first finding and are equal, although the two comments differ. When both comments
  fail, the upsert of the second finds the top-level comment of the first and
  replaces its body: one top-level comment is left, with the text of the second, and
  the posted text of the first is gone.
\<close>

lemma fallback_post_plain:
  assumes "CHR 0x60 \<notin> set (makeStableKey Fallback (resolveReviewPath files (cd_path cm))
      (cd_line cm) (fallback_header (find_orig lineComments cm)) (Some (cd_body cm)))"
    and "CHR 0x60 \<notin> set (fallbackBody files lineComments cm)"
  shows "fallback_post None files lineComments cm
      = fallback_signature files lineComments cm @ [CHR 0x0A] @ fallbackBody files lineComments cm
        @ [CHR 0x0A, CHR 0x0A] @ COMMENT_SIGNATURE"
proof -
  have s: "CHR 0x60 \<notin> set (fallback_signature files lineComments cm)"
    unfolding fallback_signature_def by (rule signature_no_backtick [OF assms(1)])
  with assms(2) have "CHR 0x60 \<notin> set (fallback_signature files lineComments cm @ [CHR 0x0A]
      @ fallbackBody files lineComments cm)"
    by simp
  from no_backtick_no_truncation [OF this] show ?thesis
    by (simp add: fallback_post_def buildComment_def Let_def)
qed

lemma twin_batch_eq: "twin_batch = [far_cm, twin_cm]"
  by code_simp

lemma twin_results:
  "fallback_results rejecting_host None Map.empty far_files twin_batch
     = [Inl (Some HostError), Inl (Some HostError)]"
  by (simp add: twin_batch_eq fallback_results_def processWithConcurrency_def retry_loop_3
      rejecting_host_def)

lemma twin_orig:
  "find_orig [far_finding, twin_finding] far_cm = Some far_finding
   \<and> find_orig [far_finding, twin_finding] twin_cm = Some far_finding"
  by code_simp

lemma twin_signature:
  "fallback_signature far_files [far_finding, twin_finding] twin_cm
     = fallback_signature far_files [far_finding, twin_finding] far_cm"
proof -
  have h: "or_empty (fallback_header (Some far_finding)) \<noteq> []" by code_simp
  have p: "resolveReviewPath far_files (cd_path twin_cm) = resolveReviewPath far_files (cd_path far_cm)"
      "cd_line twin_cm = cd_line far_cm"
    by (simp_all add: twin_cm_def far_cm_def)
  show ?thesis
    unfolding fallback_signature_def p
    using twin_orig signature_same_header [OF h] by simp
qed

theorem same_line_fallback_overwritten:
  "twin_batch = [far_cm, twin_cm]
   \<and> cd_body far_cm \<noteq> cd_body twin_cm
   \<and> fallback_results rejecting_host None Map.empty far_files twin_batch
       = [Inl (Some HostError), Inl (Some HostError)]
   \<and> find_orig [far_finding, twin_finding] twin_cm = Some far_finding
   \<and> fallback_signature far_files [far_finding, twin_finding] twin_cm
       = fallback_signature far_files [far_finding, twin_finding] far_cm
   \<and> fallback_post None far_files [far_finding, twin_finding] far_cm
       \<noteq> fallback_post None far_files [far_finding, twin_finding] twin_cm
   \<and> map ic_body (fallback_batch rejecting_host accepting_issue_host None Map.empty far_files
                     [far_finding, twin_finding] [] twin_batch)
       = [Some (fallback_post None far_files [far_finding, twin_finding] twin_cm)]"
proof -
  let ?lc = "[far_finding, twin_finding]"
  let ?sig = "fallback_signature far_files ?lc far_cm"
  let ?p1 = "fallback_post None far_files ?lc far_cm"
  let ?p2 = "fallback_post None far_files ?lc twin_cm"
  have bodies: "cd_body far_cm \<noteq> cd_body twin_cm" by code_simp
  have k1: "CHR 0x60 \<notin> set (makeStableKey Fallback (resolveReviewPath far_files (cd_path far_cm))
      (cd_line far_cm) (fallback_header (find_orig ?lc far_cm)) (Some (cd_body far_cm)))"
    by code_simp
  have k2: "CHR 0x60 \<notin> set (makeStableKey Fallback (resolveReviewPath far_files (cd_path twin_cm))
      (cd_line twin_cm) (fallback_header (find_orig ?lc twin_cm)) (Some (cd_body twin_cm)))"
    by code_simp
  have b1: "CHR 0x60 \<notin> set (fallbackBody far_files ?lc far_cm)" by code_simp
  have b2: "CHR 0x60 \<notin> set (fallbackBody far_files ?lc twin_cm)" by code_simp
  have p1: "?p1 = ?sig @ [CHR 0x0A] @ fallbackBody far_files ?lc far_cm
              @ [CHR 0x0A, CHR 0x0A] @ COMMENT_SIGNATURE"
    by (rule fallback_post_plain [OF k1 b1])
  have p2: "?p2 = ?sig @ [CHR 0x0A] @ fallbackBody far_files ?lc twin_cm
              @ [CHR 0x0A, CHR 0x0A] @ COMMENT_SIGNATURE"
    using fallback_post_plain [OF k2 b2] unfolding twin_signature .
  have fb: "fallbackBody far_files ?lc far_cm \<noteq> fallbackBody far_files ?lc twin_cm"
    by code_simp
  have ne: "?p1 \<noteq> ?p2" unfolding p1 p2 using fb by simp
  have inc: "str_includes ?p1 ?sig"
    unfolding p1 by (rule str_includes_append_head)
  let ?n1 = "\<lparr>ic_id = fresh_id [], ic_body = Some ?p1\<rparr>"
  have car: "carries ?sig ?n1" using inc by (simp add: carries_def)
  have s1: "upsertIssueCommentBySignature [] ?sig ?p1 = [?n1]"
    by (simp add: upsertIssueCommentBySignature_def find_signed_find createComment_def)
  have s2: "upsertIssueCommentBySignature [?n1] ?sig ?p2 = [\<lparr>ic_id = fresh_id [], ic_body = Some ?p2\<rparr>]"
    using car
    by (simp add: upsertIssueCommentBySignature_def find_signed_find updateComment_def)
  have batch: "fallback_batch rejecting_host accepting_issue_host None Map.empty far_files ?lc []
      twin_batch = [\<lparr>ic_id = fresh_id [], ic_body = Some ?p2\<rparr>]"
    using twin_results
    by (simp add: fallback_batch_def twin_batch_eq fallback_step_def accepting_issue_host_def
        twin_signature s1 s2)
  from twin_batch_eq bodies twin_results twin_orig twin_signature ne batch show ?thesis by simp
qed

section \<open>A signature cut by the truncation of code blocks\<close>

lemma split_nl_append_first:
  "CHR 0x0A \<notin> set a \<Longrightarrow>
   split_nl (a @ r) = (case split_nl r of [] \<Rightarrow> [a] | l # ls \<Rightarrow> (a @ l) # ls)"
proof (induction a)
  case Nil
  show ?case using split_nl_nonempty [of r] by (cases "split_nl r") simp_all
next
  case (Cons c a)
  then show ?case using split_nl_nonempty [of r] by (cases "split_nl r") auto
qed

lemma join_nl_append_first: "join_nl ((a @ l) # ls) = a @ join_nl (l # ls)"
  by (cases ls) simp_all

lemma show_hex_nonempty: "show_hex n \<noteq> []"
  by (subst show_hex.simps) simp

lemma sublist_around:
  assumes "set pat \<inter> set mid = {}" "mid \<noteq> []" "pat \<noteq> []"
  shows "sublist pat (a @ mid @ b) \<longleftrightarrow> sublist pat a \<or> sublist pat b"
proof
  assume "sublist pat a \<or> sublist pat b"
  then show "sublist pat (a @ mid @ b)"
    by (auto simp: sublist_append)
next
  assume s: "sublist pat (a @ mid @ b)"
  have right: "sublist pat b" if "sublist pat (mid @ b)"
  proof -
    from that consider "sublist pat mid" | "sublist pat b"
      | x1 x2 where "pat = x1 @ x2" "suffix x1 mid" "prefix x2 b"
      unfolding sublist_append by blast
    then show ?thesis
    proof cases
      case 1
      then have "set pat \<subseteq> set mid" by (rule set_mono_sublist)
      with assms(1,3) show ?thesis by (cases pat) auto
    next
      case 2 then show ?thesis .
    next
      case 3
      show ?thesis
      proof (cases "x1 = []")
        case True
        with 3 show ?thesis by auto
      next
        case False
        then have "last x1 \<in> set x1" by simp
        moreover have "set x1 \<subseteq> set mid" using 3(2) by (auto simp: suffix_def)
        moreover have "set x1 \<subseteq> set pat" using 3(1) by auto
        ultimately show ?thesis using assms(1) by blast
      qed
    qed
  qed
  from s consider "sublist pat a" | "sublist pat (mid @ b)"
    | x1 x2 where "pat = x1 @ x2" "suffix x1 a" "prefix x2 (mid @ b)"
    unfolding sublist_append by blast
  then show "sublist pat a \<or> sublist pat b"
  proof cases
    case 1 then show ?thesis ..
  next
    case 2 then show ?thesis using right by blast
  next
    case 3
    show ?thesis
    proof (cases "x2 = []")
      case True
      with 3 show ?thesis by auto
    next
      case False
      with 3(3) assms(2) have "hd x2 = hd mid"
        by (cases x2; cases mid) (auto simp: prefix_def)
      moreover have "hd x2 \<in> set pat" using False 3(1) by (cases x2) auto
      moreover have "hd mid \<in> set mid" using assms(2) by simp
      ultimately show ?thesis using assms(1) by auto
    qed
  qed
qed

text \<open>
  Why the line feeds matter: with a code-block limit of 1, the header of this finding
  opens a fence inside the signature, the truncation drops the end of the signature
  from the posted body, the second run does not find the first comment, and the
  finding is posted twice.
\<close>

lemma fenced_header_duplicates:
  "length (post_file_comment (Some 1) [] (post_file_comment (Some 1) [] [] fenced_header_note)
             fenced_header_note) = 2"
proof -
  define key where "key = makeStableKey FileNote ''a.ts'' None (ai_header fenced_header_note) (Some ''C'')"
  define a where "a = ''<!-- presubmit.ai: upsert:'' @ hashString key"
  define R where "R = '':'' @ key @ '' -->'' @ [CHR 0x0A]
      @ or_empty (ai_header fenced_header_note) @ [CHR 0x0A, CHR 0x0A] @ ''C''
      @ [CHR 0x0A, CHR 0x0A] @ ''File: a.ts''"
  have sig: "file_note_signature [] fenced_header_note = a @ '':'' @ key @ '' -->''"
    by (simp add: file_note_signature_def makeUpsertSignature_def Let_def a_def key_def
        resolveReviewPath_def fenced_header_note_def file_note_def)
  have body: "file_note_body [] fenced_header_note = a @ R"
    unfolding file_note_body_def Let_def sig R_def
    by (simp add: fenced_header_note_def file_note_def resolveReviewPath_def or_empty_def trim_def
        is_js_space_def)
  have hx: "set (hashString key) \<subseteq> set ''0123456789abcdef''" by (rule hashString_chars)
  have "CHR 0x0A \<notin> set ''0123456789abcdef''" by simp
  with hx have "CHR 0x0A \<notin> set (hashString key)" by blast
  then have anl: "CHR 0x0A \<notin> set a" by (simp add: a_def)
  obtain l1 ls where sp: "split_nl R = l1 # ls"
    and tr: "truncate_lines 1 ls False 0 = [''```'', ''x'', TRUNCATED_MARKER, ''```'', ''x'', ''y'', [], ''C'', [], ''File: a.ts'']"
    and l1: "l1 = '':file-note|a.ts|0|H''"
  proof
    show "split_nl R = '':file-note|a.ts|0|H'' # [''```'', ''x'', ''y -->'', ''H'', ''```'', ''x'', ''y'', [], ''C'', [], ''File: a.ts'']"
      unfolding R_def key_def by code_simp
    show "truncate_lines 1 [''```'', ''x'', ''y -->'', ''H'', ''```'', ''x'', ''y'', [], ''C'', [], ''File: a.ts''] False 0
      = [''```'', ''x'', TRUNCATED_MARKER, ''```'', ''x'', ''y'', [], ''C'', [], ''File: a.ts'']"
      by code_simp
    show "'':file-note|a.ts|0|H'' = '':file-note|a.ts|0|H''" ..
  qed
  define T where "T = join_nl (l1 # [''```'', ''x'', TRUNCATED_MARKER, ''```'', ''x'', ''y'', [], ''C'', [], ''File: a.ts''])
      @ [CHR 0x0A, CHR 0x0A] @ COMMENT_SIGNATURE"
  have nf: "\<not> startsWith (a @ l1) ''```''" by (simp add: a_def startsWith_def)
  have "truncate_lines 1 (split_nl (a @ R)) False 0 = (a @ l1) # truncate_lines 1 ls False 0"
    using nf by (simp add: split_nl_append_first [OF anl] sp)
  then have posted: "buildComment (Some 1) (file_note_body [] fenced_header_note) = a @ T"
    unfolding body buildComment_def Let_def truncateCodeBlocks_def T_def tr
    by (simp add: join_nl_append_first)
  have pat: "sublist ''y -->'' (file_note_signature [] fenced_header_note)"
  proof -
    have "key = ''file-note|a.ts|0|H'' @ [CHR 0x0A] @ ''```'' @ [CHR 0x0A] @ ''x'' @ [CHR 0x0A] @ ''y''"
      unfolding key_def by code_simp
    then have "file_note_signature [] fenced_header_note
        = (a @ '':file-note|a.ts|0|H'' @ [CHR 0x0A] @ ''```'' @ [CHR 0x0A] @ ''x'' @ [CHR 0x0A]) @ ''y -->''"
      unfolding sig by simp
    then show ?thesis by (metis sublist_append_leftI)
  qed
  have "\<not> sublist ''y -->'' (a @ T)"
  proof -
    have d: "set ''y -->'' \<inter> set (hashString key) = {}" using hx by auto
    have ne: "hashString key \<noteq> []" unfolding hashString_def by (rule show_hex_nonempty)
    have "sublist ''y -->'' (''<!-- presubmit.ai: upsert:'' @ hashString key @ T)
        \<longleftrightarrow> sublist ''y -->'' ''<!-- presubmit.ai: upsert:'' \<or> sublist ''y -->'' T"
      by (rule sublist_around [OF d ne]) simp
    moreover have "\<not> sublist ''y -->'' ''<!-- presubmit.ai: upsert:''" by code_simp
    moreover have "\<not> sublist ''y -->'' T" unfolding T_def l1 by code_simp
    ultimately show ?thesis by (simp add: a_def)
  qed
  with pat have notc: "\<not> str_includes (buildComment (Some 1) (file_note_body [] fenced_header_note))
      (file_note_signature [] fenced_header_note)"
    unfolding posted str_includes_def using sublist_order.order_trans by blast
  let ?sig = "file_note_signature [] fenced_header_note"
  let ?b = "buildComment (Some 1) (file_note_body [] fenced_header_note)"
  have p1: "post_file_comment (Some 1) [] [] fenced_header_note = [\<lparr>ic_id = fresh_id [], ic_body = Some ?b\<rparr>]"
    by (simp add: post_file_comment_def upsertIssueCommentBySignature_def find_signed_find
        createComment_def)
  have "\<not> carries ?sig \<lparr>ic_id = fresh_id [], ic_body = Some ?b\<rparr>"
    using notc by (simp add: carries_def)
  then have "length (post_file_comment (Some 1) [] [\<lparr>ic_id = fresh_id [], ic_body = Some ?b\<rparr>]
      fenced_header_note) = 2"
    by (simp add: post_file_comment_def upsertIssueCommentBySignature_def find_signed_find
        createComment_def)
  with p1 show ?thesis by simp
qed

end
